theory Spec2Isabelle
  imports Complex_Main "HOL-Library.AList"
begin

section \<open>Exceptions\<close>

text \<open>
  Every exception the modelled code raises itself has a constructor of its own. An
  exception raised by an external collaborator (the container reader and writer, the
  file system, a point pen) is whatever value that collaborator returns; \<open>OtherError\<close>
  stands for the ones the code never names.
\<close>

datatype error =
    KeyError string
  | AttributeError string
  | TypeError
  | AssertionError
  | NotImplementedError
  | ValueError
  | OSError_EEXIST string
  | OtherError string

section \<open>misc.py: DataStore\<close>

text \<open>
  \<^verbatim>\<open>_data\<close> is a Python dict: insertion ordered, assigning to an existing key keeps its
  place. It is an association list handled with \<open>AList.update\<close>, \<open>AList.delete\<close> and
  \<open>map_of\<close>. A value of the dict is either the sentinel \<^verbatim>\<open>_NOT_LOADED\<close> or a payload.
  \<^verbatim>\<open>_scheduledForDeletion\<close> is a Python set; it is a list that \<open>List.insert\<close> and
  \<open>removeAll\<close> keep free of duplicates, and the order in which the code iterates over it
  (unspecified in Python) is the order of that list. The attribute \<^verbatim>\<open>reader\<close> exists only
  after a lazy read: absent is \<open>None\<close>.
\<close>

type_synonym fileName = string
type_synonym payload = string

datatype entry = NOT_LOADED | Loaded payload

record 'r DataStore =
  p_data :: "(fileName \<times> entry) list"
  p_scheduledForDeletion :: "fileName list"
  reader :: "'r option"

text \<open>
  The class attributes \<^verbatim>\<open>listdir\<close>, \<^verbatim>\<open>readf\<close>, \<^verbatim>\<open>writef\<close>, \<^verbatim>\<open>deletef\<close> are \<^verbatim>\<open>None\<close> in
  \<^verbatim>\<open>DataStore\<close> and bound by its subclasses: they are parameters. \<open>'r\<close> is the reader
  handle, \<open>'wr\<close> the writer handle and \<open>'w\<close> the state of the backing containers. Reading
  leaves that state as it is; writing and deleting return the new state, and the
  exception if they raise.
\<close>

record ('r, 'wr, 'w) DataStoreClass =
  listdir :: "'r \<Rightarrow> 'w \<Rightarrow> error + fileName list"
  readf :: "'r \<Rightarrow> fileName \<Rightarrow> 'w \<Rightarrow> error + payload"
  writef :: "'wr \<Rightarrow> fileName \<Rightarrow> payload \<Rightarrow> 'w \<Rightarrow> error option \<times> 'w"
  deletef :: "'wr \<Rightarrow> fileName \<Rightarrow> 'w \<Rightarrow> error option \<times> 'w"

text \<open>
  Each operation returns, last, the calls of \<^verbatim>\<open>readf\<close>, \<^verbatim>\<open>writef\<close> and \<^verbatim>\<open>deletef\<close> it
  made, in order; a call that raised is listed too.
\<close>

datatype call =
    ReadF fileName "error + payload"
  | WriteF fileName payload
  | DeleteF fileName

text \<open>The attrs-generated constructor followed by \<^verbatim>\<open>__attrs_post_init__\<close>.\<close>

definition DataStore_init :: "(fileName \<times> entry) list \<Rightarrow> 'r DataStore" where
  "DataStore_init d = \<lparr>p_data = d, p_scheduledForDeletion = [], reader = None\<rparr>"

text \<open>The loop of \<^verbatim>\<open>read\<close> over the listed file names.\<close>

fun read_entries ::
  "('r, 'wr, 'w) DataStoreClass \<Rightarrow> 'r \<Rightarrow> bool \<Rightarrow> 'w \<Rightarrow> fileName list \<Rightarrow>
   (fileName \<times> entry) list \<Rightarrow> (error + (fileName \<times> entry) list) \<times> call list" where
  "read_entries cls r lazy w [] d = (Inr d, [])"
| "read_entries cls r lazy w (f # fs) d =
     (if lazy then read_entries cls r lazy w fs (AList.update f NOT_LOADED d)
      else (case readf cls r f w of
              Inl e \<Rightarrow> (Inl e, [ReadF f (Inl e)])
            | Inr v \<Rightarrow>
                (case read_entries cls r lazy w fs (AList.update f (Loaded v) d) of
                   (res, tr) \<Rightarrow> (res, ReadF f (Inr v) # tr))))"

definition DataStore_read ::
  "('r, 'wr, 'w) DataStoreClass \<Rightarrow> 'r \<Rightarrow> bool \<Rightarrow> 'w \<Rightarrow> (error + 'r DataStore) \<times> call list" where
  "DataStore_read cls r lazy w =
     (case listdir cls r w of
        Inl e \<Rightarrow> (Inl e, [])
      | Inr fs \<Rightarrow>
          (case read_entries cls r lazy w fs [] of
             (Inl e, tr) \<Rightarrow> (Inl e, tr)
           | (Inr d, tr) \<Rightarrow>
               (Inr \<lparr>p_data = d, p_scheduledForDeletion = [],
                     reader = (if lazy then Some r else None)\<rparr>, tr)))"

text \<open>
  \<^verbatim>\<open>__getitem__\<close>: a missing key raises \<^verbatim>\<open>KeyError\<close>, a sentinel without the attribute
  \<^verbatim>\<open>reader\<close> raises \<^verbatim>\<open>AttributeError\<close>, and an exception of \<^verbatim>\<open>readf\<close> leaves the
  sentinel in place.
\<close>

definition getitem ::
  "('r, 'wr, 'w) DataStoreClass \<Rightarrow> 'r DataStore \<Rightarrow> fileName \<Rightarrow> 'w \<Rightarrow>
   (error + payload) \<times> 'r DataStore \<times> call list" where
  "getitem cls s fileName w =
     (case map_of (p_data s) fileName of
        None \<Rightarrow> (Inl (KeyError fileName), s, [])
      | Some (Loaded v) \<Rightarrow> (Inr v, s, [])
      | Some NOT_LOADED \<Rightarrow>
          (case reader s of
             None \<Rightarrow> (Inl (AttributeError ''reader''), s, [])
           | Some r \<Rightarrow>
               (case readf cls r fileName w of
                  Inl e \<Rightarrow> (Inl e, s, [ReadF fileName (Inl e)])
                | Inr v \<Rightarrow>
                    (Inr v, s\<lparr>p_data := AList.update fileName (Loaded v) (p_data s)\<rparr>,
                     [ReadF fileName (Inr v)]))))"

definition setitem :: "'r DataStore \<Rightarrow> fileName \<Rightarrow> payload \<Rightarrow> 'r DataStore" where
  "setitem s fileName v =
     s\<lparr>p_data := AList.update fileName (Loaded v) (p_data s),
       p_scheduledForDeletion := removeAll fileName (p_scheduledForDeletion s)\<rparr>"

text \<open>\<^verbatim>\<open>__delitem__\<close>: \<^verbatim>\<open>del\<close> raises \<^verbatim>\<open>KeyError\<close> on a missing key, before the set is touched.\<close>

definition delitem :: "'r DataStore \<Rightarrow> fileName \<Rightarrow> error option \<times> 'r DataStore" where
  "delitem s fileName =
     (if fileName \<in> fst ` set (p_data s)
      then (None, s\<lparr>p_data := AList.delete fileName (p_data s),
                    p_scheduledForDeletion := List.insert fileName (p_scheduledForDeletion s)\<rparr>)
      else (Some (KeyError fileName), s))"

text \<open>The first loop of \<^verbatim>\<open>write\<close>: \<^verbatim>\<open>deletef\<close> for every scheduled name.\<close>

fun delete_scheduled ::
  "('r, 'wr, 'w) DataStoreClass \<Rightarrow> 'wr \<Rightarrow> fileName list \<Rightarrow> 'w \<Rightarrow> error option \<times> 'w \<times> call list" where
  "delete_scheduled cls wr [] w = (None, w, [])"
| "delete_scheduled cls wr (f # fs) w =
     (case deletef cls wr f w of
        (Some e, w') \<Rightarrow> (Some e, w', [DeleteF f])
      | (None, w') \<Rightarrow>
          (case delete_scheduled cls wr fs w' of
             (res, w'', tr) \<Rightarrow> (res, w'', DeleteF f # tr)))"

text \<open>
  The second loop, \<^verbatim>\<open>for fileName, data in self.items()\<close>: the items view of
  \<^verbatim>\<open>MutableMapping\<close> iterates over the keys and fetches each value with \<^verbatim>\<open>__getitem__\<close>,
  which loads an entry that is still the sentinel.
\<close>

fun write_items ::
  "('r, 'wr, 'w) DataStoreClass \<Rightarrow> 'wr \<Rightarrow> fileName list \<Rightarrow> 'r DataStore \<Rightarrow> 'w \<Rightarrow>
   error option \<times> 'r DataStore \<times> 'w \<times> call list" where
  "write_items cls wr [] s w = (None, s, w, [])"
| "write_items cls wr (f # fs) s w =
     (case getitem cls s f w of
        (Inl e, s1, tr1) \<Rightarrow> (Some e, s1, w, tr1)
      | (Inr v, s1, tr1) \<Rightarrow>
          (case writef cls wr f v w of
             (Some e, w1) \<Rightarrow> (Some e, s1, w1, tr1 @ [WriteF f v])
           | (None, w1) \<Rightarrow>
               (case write_items cls wr fs s1 w1 of
                  (res, s2, w2, tr2) \<Rightarrow> (res, s2, w2, tr1 @ WriteF f v # tr2))))"

definition DataStore_write ::
  "('r, 'wr, 'w) DataStoreClass \<Rightarrow> 'r DataStore \<Rightarrow> 'wr \<Rightarrow> bool \<Rightarrow> 'w \<Rightarrow>
   error option \<times> 'r DataStore \<times> 'w \<times> call list" where
  "DataStore_write cls s wr saveAs w =
     (case (if \<not> saveAs then delete_scheduled cls wr (p_scheduledForDeletion s) w
            else (None, w, [])) of
        (Some e, w1, tr1) \<Rightarrow> (Some e, s, w1, tr1)
      | (None, w1, tr1) \<Rightarrow>
          (case write_items cls wr (map fst (p_data s)) s w1 of
             (Some e, s2, w2, tr2) \<Rightarrow> (Some e, s2, w2, tr1 @ tr2)
           | (None, s2, w2, tr2) \<Rightarrow>
               (None,
                s2\<lparr>p_scheduledForDeletion := [],
                   reader := (if saveAs then None else reader s2)\<rparr>,
                w2, tr1 @ tr2)))"

subsection \<open>Sequences of operations on a store\<close>

text \<open>
  A sequence of \<^verbatim>\<open>store[k] = v\<close> and \<^verbatim>\<open>del store[k]\<close>. A \<^verbatim>\<open>del\<close> that raises \<^verbatim>\<open>KeyError\<close> has
  left the store as it was, and the sequence goes on, as after a caught exception.
\<close>

datatype op = SetItem fileName payload | DelItem fileName

fun apply_ops :: "'r DataStore \<Rightarrow> op list \<Rightarrow> 'r DataStore" where
  "apply_ops s [] = s"
| "apply_ops s (SetItem k v # ops) = apply_ops (setitem s k v) ops"
| "apply_ops s (DelItem k # ops) = apply_ops (snd (delitem s k)) ops"

text \<open>No key is both present in the data and pending deletion.\<close>

definition exclusive :: "'r DataStore \<Rightarrow> bool" where
  "exclusive s = (fst ` set (p_data s) \<inter> set (p_scheduledForDeletion s) = {})"

text \<open>
  A sequence of accesses \<^verbatim>\<open>store[k]\<close>, in one state of the backing container; an access
  that raises leaves the store as \<open>getitem\<close> left it and the sequence goes on. It returns
  the result of every access, the final store and all the calls made.
\<close>

fun getitems ::
  "('r, 'wr, 'w) DataStoreClass \<Rightarrow> 'r DataStore \<Rightarrow> fileName list \<Rightarrow> 'w \<Rightarrow>
   (error + payload) list \<times> 'r DataStore \<times> call list" where
  "getitems cls s [] w = ([], s, [])"
| "getitems cls s (k # ks) w =
     (case getitem cls s k w of
        (res, s1, tr1) \<Rightarrow>
          (case getitems cls s1 ks w of
             (rs, s2, tr2) \<Rightarrow> (res # rs, s2, tr1 @ tr2)))"

text \<open>The calls of \<^verbatim>\<open>readf\<close> for the key \<open>k\<close>.\<close>

fun is_read :: "fileName \<Rightarrow> call \<Rightarrow> bool" where
  "is_read k (ReadF f x) = (f = k)"
| "is_read k (WriteF f v) = False"
| "is_read k (DeleteF f) = False"

text \<open>
  A store that agrees with the container its reader \<open>r\<close> reads, in the state \<open>w\<close>: what is
  loaded is what \<^verbatim>\<open>readf\<close> returns, and what is not loaded can be read.
\<close>

definition consistent :: "('r, 'wr, 'w) DataStoreClass \<Rightarrow> 'r \<Rightarrow> 'w \<Rightarrow> 'r DataStore \<Rightarrow> bool" where
  "consistent cls r w s =
     (reader s = Some r \<and>
      (\<forall>k v. map_of (p_data s) k = Some (Loaded v) \<longrightarrow> readf cls r k w = Inr v) \<and>
      (\<forall>k. map_of (p_data s) k = Some NOT_LOADED \<longrightarrow> (\<exists>v. readf cls r k w = Inr v)))"

subsection \<open>An executable backing container\<close>

text \<open>
  For the examples: the state is a list of named containers, each a list of files; a
  reader or a writer is the name of its container. Reading a missing file raises;
  writing and deleting succeed.
\<close>

definition container ::
  "(string \<times> (fileName \<times> payload) list) list \<Rightarrow> string \<Rightarrow> (fileName \<times> payload) list" where
  "container w h = (case map_of w h of None \<Rightarrow> [] | Some c \<Rightarrow> c)"

definition demo_cls ::
  "(string, string, (string \<times> (fileName \<times> payload) list) list) DataStoreClass" where
  "demo_cls = \<lparr>
     listdir = (\<lambda>r w. case map_of w r of None \<Rightarrow> Inl (OtherError r) | Some c \<Rightarrow> Inr (map fst c)),
     readf = (\<lambda>r f w. case map_of (container w r) f of None \<Rightarrow> Inl (OtherError f) | Some v \<Rightarrow> Inr v),
     writef = (\<lambda>wr f v w. (None, AList.update wr (AList.update f v (container w wr)) w)),
     deletef = (\<lambda>wr f w. (None, AList.update wr (AList.delete f (container w wr)) w))\<rparr>"

text \<open>
  A container \<^verbatim>\<open>src\<close> with three files and an empty \<^verbatim>\<open>dst\<close>; a store read lazily from
  \<^verbatim>\<open>src\<close> of which \<^verbatim>\<open>a\<close> was loaded and \<^verbatim>\<open>c\<close> deleted; that store and the containers after
  it was written to \<^verbatim>\<open>dst\<close>; and the stores a fresh eager and a fresh lazy read of \<^verbatim>\<open>src\<close>
  give.
\<close>

definition demo_world :: "(string \<times> (fileName \<times> payload) list) list" where
  "demo_world = [(''src'', [(''a'', ''1''), (''b'', ''9''), (''c'', ''3'')]), (''dst'', [])]"

definition demo_store :: "string DataStore" where
  "demo_store = \<lparr>p_data = [(''a'', Loaded ''1''), (''b'', NOT_LOADED)],
     p_scheduledForDeletion = [''c''], reader = Some ''src''\<rparr>"

definition demo_saved :: "string DataStore" where
  "demo_saved = \<lparr>p_data = [(''a'', Loaded ''1''), (''b'', Loaded ''9'')],
     p_scheduledForDeletion = [], reader = None\<rparr>"

definition demo_world_saved :: "(string \<times> (fileName \<times> payload) list) list" where
  "demo_world_saved = [(''src'', [(''a'', ''1''), (''b'', ''9''), (''c'', ''3'')]),
                       (''dst'', [(''a'', ''1''), (''b'', ''9'')])]"

definition demo_eager :: "string DataStore" where
  "demo_eager = \<lparr>p_data = [(''a'', Loaded ''1''), (''b'', Loaded ''9''), (''c'', Loaded ''3'')],
     p_scheduledForDeletion = [], reader = None\<rparr>"

definition demo_lazy :: "string DataStore" where
  "demo_lazy = \<lparr>p_data = [(''a'', NOT_LOADED), (''b'', NOT_LOADED), (''c'', NOT_LOADED)],
     p_scheduledForDeletion = [], reader = Some ''src''\<rparr>"

section \<open>glyph.py: Glyph\<close>

text \<open>
  Coordinates and advance widths are Python numbers; they are reals here, so the rounding
  of floats is not modelled. Of the attributes of \<^verbatim>\<open>Glyph\<close> the record keeps those the
  modelled methods read or write.

  Modelled from the spec: \<^verbatim>\<open>contour.py\<close>, \<^verbatim>\<open>component.py\<close> and \<^verbatim>\<open>anchor.py\<close> are not under
  \<^verbatim>\<open>src/\<close>. A contour is its sequence of points, a component a reference to a sibling
  glyph with the offset of its transformation, an anchor a position; \<^verbatim>\<open>move\<close> of each
  shifts it by the delta (section 4.4: setting a margin "shifts all
  contour/component/anchor geometry by that delta").
\<close>

type_synonym point = "real \<times> real"

record Contour =
  points :: "point list"

record Component =
  base :: string
  offset :: point

record Anchor =
  position :: point

record BoundingBox =
  xMin :: real
  yMin :: real
  xMax :: real
  yMax :: real

record Glyph =
  width :: real
  height :: real
  unicodes :: "int list"
  contours :: "Contour list"
  components :: "Component list"
  anchors :: "Anchor list"

definition shift :: "point \<Rightarrow> point \<Rightarrow> point" where
  "shift delta p = (fst p + fst delta, snd p + snd delta)"

definition Contour_move :: "point \<Rightarrow> Contour \<Rightarrow> Contour" where
  "Contour_move delta c = c\<lparr>points := map (shift delta) (points c)\<rparr>"

definition Component_move :: "point \<Rightarrow> Component \<Rightarrow> Component" where
  "Component_move delta c = c\<lparr>offset := shift delta (offset c)\<rparr>"

definition Anchor_move :: "point \<Rightarrow> Anchor \<Rightarrow> Anchor" where
  "Anchor_move delta a = a\<lparr>position := shift delta (position a)\<rparr>"

text \<open>The property \<^verbatim>\<open>unicode\<close>: its getter and its setter.\<close>

definition unicode :: "Glyph \<Rightarrow> int option" where
  "unicode g = (if unicodes g \<noteq> [] then Some (unicodes g ! 0) else None)"

text \<open>
  \<^verbatim>\<open>list.remove\<close> deletes the first occurrence and raises \<^verbatim>\<open>ValueError\<close> when there is
  none, which the setter catches: that is \<open>remove1\<close>.
\<close>

definition set_unicode :: "int option \<Rightarrow> Glyph \<Rightarrow> Glyph" where
  "set_unicode val g =
     (case val of
        None \<Rightarrow> g\<lparr>unicodes := []\<rparr>
      | Some v \<Rightarrow>
          (if unicodes g \<noteq> []
           then (if unicodes g ! 0 = v then g
                 else g\<lparr>unicodes := v # remove1 v (unicodes g)\<rparr>)
           else g\<lparr>unicodes := unicodes g @ [v]\<rparr>))"

text \<open>\<^verbatim>\<open>Glyph.move\<close>: contours, components and anchors, not the advance.\<close>

definition move :: "point \<Rightarrow> Glyph \<Rightarrow> Glyph" where
  "move delta g =
     g\<lparr>contours := map (Contour_move delta) (contours g),
       components := map (Component_move delta) (components g),
       anchors := map (Anchor_move delta) (anchors g)\<rparr>"

text \<open>
  Modelled from the spec: the helper \<^verbatim>\<open>getBounds\<close> that \<^verbatim>\<open>glyph.py\<close> imports from
  \<^verbatim>\<open>ufoLib2.objects.misc\<close> is not in the \<^verbatim>\<open>misc.py\<close> under \<^verbatim>\<open>src/\<close>. It is the bounding
  box of the outline, \<open>None\<close> for an empty one. The box of the contours is the box of
  their points (exact for outlines of straight segments; the extrema of curves are
  outside the model). A component cannot be measured without layer context (section
  4.4): the layer is the capability that gives the box of a component.
\<close>

type_synonym Layer = "Component \<Rightarrow> BoundingBox option"

definition point_box :: "point \<Rightarrow> BoundingBox" where
  "point_box p = \<lparr>xMin = fst p, yMin = snd p, xMax = fst p, yMax = snd p\<rparr>"

definition box_union :: "BoundingBox \<Rightarrow> BoundingBox \<Rightarrow> BoundingBox" where
  "box_union a b = \<lparr>xMin = min (xMin a) (xMin b), yMin = min (yMin a) (yMin b),
                    xMax = max (xMax a) (xMax b), yMax = max (yMax a) (yMax b)\<rparr>"

fun boxes_union :: "BoundingBox list \<Rightarrow> BoundingBox option" where
  "boxes_union [] = None"
| "boxes_union (b # bs) =
     (case boxes_union bs of None \<Rightarrow> Some b | Some c \<Rightarrow> Some (box_union b c))"

definition getBounds_helper :: "Glyph \<Rightarrow> Layer option \<Rightarrow> BoundingBox option" where
  "getBounds_helper g layer =
     boxes_union
       (map point_box (concat (map points (contours g))) @
        (case layer of
           None \<Rightarrow> []
         | Some measure_component \<Rightarrow> List.map_filter measure_component (components g)))"

text \<open>\<^verbatim>\<open>Glyph.getBounds\<close> and the two margin methods, as in the source.\<close>

definition getBounds :: "Glyph \<Rightarrow> Layer option \<Rightarrow> error + BoundingBox option" where
  "getBounds g layer =
     (if layer = None \<and> components g \<noteq> [] then Inl TypeError
      else Inr (getBounds_helper g layer))"

definition setLeftMargin :: "real \<Rightarrow> Layer option \<Rightarrow> Glyph \<Rightarrow> error + Glyph" where
  "setLeftMargin val layer g =
     (case getBounds g layer of
        Inl e \<Rightarrow> Inl e
      | Inr None \<Rightarrow> Inr g
      | Inr (Some bounds) \<Rightarrow>
          (let diff = val - xMin bounds
           in if diff \<noteq> 0 then Inr (move (diff, 0) (g\<lparr>width := width g + diff\<rparr>))
              else Inr g))"

definition getRightMargin :: "Glyph \<Rightarrow> Layer option \<Rightarrow> error + real option" where
  "getRightMargin g layer =
     (case getBounds g layer of
        Inl e \<Rightarrow> Inl e
      | Inr None \<Rightarrow> Inr None
      | Inr (Some bounds) \<Rightarrow> Inr (Some (width g - xMax bounds)))"

definition getLeftMargin :: "Glyph \<Rightarrow> Layer option \<Rightarrow> error + real option" where
  "getLeftMargin g layer =
     (case getBounds g layer of
        Inl e \<Rightarrow> Inl e
      | Inr None \<Rightarrow> Inr None
      | Inr (Some bounds) \<Rightarrow> Inr (Some (xMin bounds)))"

text \<open>The glyph of the margin example: one contour from (10, 0) to (90, 50), advance 100.\<close>

definition demo_glyph :: Glyph where
  "demo_glyph = \<lparr>width = 100, height = 0, unicodes = [3, 5, 7],
     contours = [\<lparr>points = [(10, 0), (90, 50)]\<rparr>], components = [],
     anchors = [\<lparr>position = (50, 0)\<rparr>]\<rparr>"

text \<open>The example glyph with a code point assigned twice.\<close>

definition demo_glyph_duplicate :: Glyph where
  "demo_glyph_duplicate = demo_glyph\<lparr>unicodes := [3, 5, 5, 7]\<rparr>"

text \<open>A bounding box moved by a delta.\<close>

definition shift_box :: "point \<Rightarrow> BoundingBox \<Rightarrow> BoundingBox" where
  "shift_box delta b = \<lparr>xMin = xMin b + fst delta, yMin = yMin b + snd delta,
                        xMax = xMax b + fst delta, yMax = yMax b + snd delta\<rparr>"

text \<open>
  The contract a layer has to meet for a margin to be meaningful: the box of a moved
  component is the moved box. Without a layer there is nothing to meet.
\<close>

definition covariant :: "Layer option \<Rightarrow> bool" where
  "covariant layer =
     (case layer of
        None \<Rightarrow> True
      | Some measure_component \<Rightarrow>
          (\<forall>delta c. measure_component (Component_move delta c) =
                     map_option (shift_box delta) (measure_component c)))"

text \<open>The example glyph after \<^verbatim>\<open>setLeftMargin(20)\<close>.\<close>

definition demo_glyph_moved :: Glyph where
  "demo_glyph_moved = \<lparr>width = 110, height = 0, unicodes = [3, 5, 7],
     contours = [\<lparr>points = [(20, 0), (100, 50)]\<rparr>], components = [],
     anchors = [\<lparr>position = (60, 0)\<rparr>]\<rparr>"

section \<open>deepComponent.py: DeepComponent\<close>

record DeepComponent =
  baseGlyph :: string
  transformation :: "real list"
  coord :: "(nat \<times> real) list"
  "identifier" :: "string option"

text \<open>
  A call of \<^verbatim>\<open>pointPen.addDeepComponent\<close>: the three positional arguments and the keyword
  \<^verbatim>\<open>identifier\<close>, which is \<open>None\<close> when the keyword is not passed and \<open>Some i\<close> when it is
  passed with the value \<open>i\<close> (itself \<^verbatim>\<open>None\<close> or a string). The point pen is external: its
  method is a parameter that takes the pen's state and the call, and returns the
  exception it raises, if any, with the pen's new state.
\<close>

record pen_call =
  arg_baseGlyph :: string
  arg_transformation :: "real list"
  arg_coord :: "(nat \<times> real) list"
  kw_identifier :: "string option option"

datatype warning = UserWarning string

definition with_identifier :: "DeepComponent \<Rightarrow> pen_call" where
  "with_identifier dc =
     \<lparr>arg_baseGlyph = baseGlyph dc, arg_transformation = transformation dc,
      arg_coord = coord dc, kw_identifier = Some (identifier dc)\<rparr>"

definition without_identifier :: "DeepComponent \<Rightarrow> pen_call" where
  "without_identifier dc =
     \<lparr>arg_baseGlyph = baseGlyph dc, arg_transformation = transformation dc,
      arg_coord = coord dc, kw_identifier = None\<rparr>"

definition discarded_message :: string where
  "discarded_message =
     ''The addDeepComponent method needs an identifier kwarg. '' @
     ''The component's identifier value has been discarded.''"

text \<open>
  \<^verbatim>\<open>drawPoints\<close> returns the exception that leaves it, if any, the pen's state, the
  warnings issued and the calls made, in order. \<^verbatim>\<open>warnings.warn\<close> is taken with the
  default filters, under which it records the warning and returns.
\<close>

definition drawPoints ::
  "('p \<Rightarrow> pen_call \<Rightarrow> error option \<times> 'p) \<Rightarrow> DeepComponent \<Rightarrow> 'p \<Rightarrow>
   error option \<times> 'p \<times> warning list \<times> pen_call list" where
  "drawPoints addDeepComponent dc pen =
     (case addDeepComponent pen (with_identifier dc) of
        (None, pen1) \<Rightarrow> (None, pen1, [], [with_identifier dc])
      | (Some e, pen1) \<Rightarrow>
          (if e = TypeError
           then (case addDeepComponent pen1 (without_identifier dc) of
                   (Some e2, pen2) \<Rightarrow>
                     (Some e2, pen2, [], [with_identifier dc, without_identifier dc])
                 | (None, pen2) \<Rightarrow>
                     (None, pen2, [UserWarning discarded_message],
                      [with_identifier dc, without_identifier dc]))
           else (Some e, pen1, [], [with_identifier dc])))"

text \<open>
  Three pens, whose state is the list of calls they accepted: one that takes the keyword,
  one written before the keyword existed (the call with it is a \<^verbatim>\<open>TypeError\<close>), and one
  whose method raises \<^verbatim>\<open>TypeError\<close> however it is called.
\<close>

definition keyword_pen :: "pen_call list \<Rightarrow> pen_call \<Rightarrow> error option \<times> pen_call list" where
  "keyword_pen pen c = (None, pen @ [c])"

definition legacy_pen :: "pen_call list \<Rightarrow> pen_call \<Rightarrow> error option \<times> pen_call list" where
  "legacy_pen pen c = (if kw_identifier c \<noteq> None then (Some TypeError, pen) else (None, pen @ [c]))"

definition failing_pen :: "pen_call list \<Rightarrow> pen_call \<Rightarrow> error option \<times> pen_call list" where
  "failing_pen pen c = (Some TypeError, pen)"

definition demo_dc :: DeepComponent where
  "demo_dc = \<lparr>baseGlyph = ''a'', transformation = [0, 0, 1, 1, 0], coord = [(0, 1)],
     identifier = Some ''id1''\<rparr>"

section \<open>font.py: Font\<close>

subsection \<open>The file system and the external reader and writer\<close>

text \<open>
  A destination is a path string, an entry of the temporary directory that \<^verbatim>\<open>save\<close>
  creates (\<^verbatim>\<open>tmp.getsyspath(name)\<close>), or a file-system object (\<^verbatim>\<open>fs.BaseFS\<close>) passed in
  place of a path. An argument with \<^verbatim>\<open>__fspath__\<close> is replaced by its string first, so it
  is a \<open>StrPath\<close>.
\<close>

datatype location = Path string | Staged string | Filesystem string

datatype path_arg = NoPath | StrPath string | FSPath string

fun is_staged :: "location \<Rightarrow> bool" where
  "is_staged (Staged n) = True"
| "is_staged (Path p) = False"
| "is_staged (Filesystem h) = False"

fun location_of :: "path_arg \<Rightarrow> location" where
  "location_of (StrPath p) = Path p"
| "location_of (FSPath h) = Filesystem h"
| "location_of NoPath = Path []"

text \<open>
  \<^verbatim>\<open>UFOFileStructure\<close> is the enumeration of fontTools; calling it with a value that is not
  one of its members raises \<^verbatim>\<open>ValueError\<close>.
\<close>

datatype UFOFileStructure = ZIP | PACKAGE

definition UFOFileStructure_of :: "string \<Rightarrow> error + UFOFileStructure" where
  "UFOFileStructure_of s =
     (if s = ''zip'' then Inr ZIP else if s = ''package'' then Inr PACKAGE else Inl ValueError)"

text \<open>The calls \<^verbatim>\<open>save\<close> and \<^verbatim>\<open>write\<close> make on a \<^verbatim>\<open>UFOWriter\<close>, the constructor included.\<close>

datatype wcall =
    Open "UFOFileStructure option" bool
  | WriteFeatures string
  | WriteGroups string
  | WriteInfo string
  | WriteKerning string
  | WriteLib string
  | WriteLayers
  | WriteData fileName payload
  | RemoveData fileName
  | WriteImage fileName payload
  | RemoveImage fileName
  | Close
  | SetModificationTime

text \<open>
  The state of the file system: what is stored at each location (\<open>'n\<close> is the content of
  an entry, with its kind), whether the temporary directory of \<^verbatim>\<open>save\<close> exists, and the
  calls made on writers so far, each with the location its writer is bound to.
\<close>

record 'n world =
  entries :: "location \<Rightarrow> 'n option"
  tmpdir :: bool
  wlog :: "(location \<times> wcall) list"

text \<open>
  Modelled from the spec: the external collaborators of section 6, none of which is
  under \<^verbatim>\<open>src/\<close>. A reader and a writer are bound to one location. A call on a writer
  acts on the entry at its location and on nothing else, and may raise after changing
  it; reading changes nothing. \<^verbatim>\<open>LayerSet.write\<close> (\<^verbatim>\<open>layerSet.py\<close>) is one opaque step of
  that kind, which may read every entry. \<^verbatim>\<open>shutil.rmtree\<close> and \<^verbatim>\<open>os.remove\<close> return what is
  left of the entry, \<^verbatim>\<open>shutil.move\<close> what is left at the source and what stands at the
  target; each may raise.
\<close>

datatype kind = Data | Images

record LayerSet =
  layerOrder :: "string list"
  defaultLayer_name :: string

record 'n env =
  normpath :: "string \<Rightarrow> string"
  basename :: "string \<Rightarrow> string"
  isdir :: "'n \<Rightarrow> bool"
  isfile :: "'n \<Rightarrow> bool"
  writer_call :: "wcall \<Rightarrow> 'n option \<Rightarrow> error option \<times> 'n option"
  reader_list :: "kind \<Rightarrow> 'n option \<Rightarrow> error + fileName list"
  reader_read :: "kind \<Rightarrow> fileName \<Rightarrow> 'n option \<Rightarrow> error + payload"
  layers_write ::
    "LayerSet \<Rightarrow> bool \<Rightarrow> (location \<Rightarrow> 'n option) \<Rightarrow> 'n option \<Rightarrow>
     error option \<times> LayerSet \<times> 'n option"
  rmtree :: "'n \<Rightarrow> error option \<times> 'n option"
  remove :: "'n \<Rightarrow> error option \<times> 'n option"
  shutil_move :: "'n option \<Rightarrow> 'n option \<Rightarrow> error option \<times> 'n option \<times> 'n option"

definition writer_do :: "'n env \<Rightarrow> location \<Rightarrow> wcall \<Rightarrow> 'n world \<Rightarrow> error option \<times> 'n world" where
  "writer_do env loc c w =
     (case writer_call env c (entries w loc) of
        (e, n) \<Rightarrow> (e, w\<lparr>entries := (entries w)(loc := n), wlog := wlog w @ [(loc, c)]\<rparr>))"

definition LayerSet_write ::
  "'n env \<Rightarrow> LayerSet \<Rightarrow> location \<Rightarrow> bool \<Rightarrow> 'n world \<Rightarrow> error option \<times> LayerSet \<times> 'n world" where
  "LayerSet_write env ls loc saveAs w =
     (case layers_write env ls saveAs (entries w) (entries w loc) of
        (e, ls', n) \<Rightarrow>
          (e, ls', w\<lparr>entries := (entries w)(loc := n), wlog := wlog w @ [(loc, WriteLayers)]\<rparr>))"

text \<open>
  Modelled from the spec: \<^verbatim>\<open>dataSet.py\<close> and \<^verbatim>\<open>imageSet.py\<close> are not under \<^verbatim>\<open>src/\<close>. They
  are the two specializations of \<^verbatim>\<open>DataStore\<close>, "distinguished only by their
  read/write/delete/list adapter functions" (section 2): the methods of the reader and
  the writer for binary data and for images.
\<close>

definition DataSet :: "'n env \<Rightarrow> (location, location, 'n world) DataStoreClass" where
  "DataSet env =
     \<lparr>listdir = (\<lambda>r w. reader_list env Data (entries w r)),
      readf = (\<lambda>r f w. reader_read env Data f (entries w r)),
      writef = (\<lambda>wr f v w. writer_do env wr (WriteData f v) w),
      deletef = (\<lambda>wr f w. writer_do env wr (RemoveData f) w)\<rparr>"

definition ImageSet :: "'n env \<Rightarrow> (location, location, 'n world) DataStoreClass" where
  "ImageSet env =
     \<lparr>listdir = (\<lambda>r w. reader_list env Images (entries w r)),
      readf = (\<lambda>r f w. reader_read env Images f (entries w r)),
      writef = (\<lambda>wr f v w. writer_do env wr (WriteImage f v) w),
      deletef = (\<lambda>wr f w. writer_do env wr (RemoveImage f) w)\<rparr>"

text \<open>
  Modelled from the spec: the reserved default-layer name is \<^verbatim>\<open>DEFAULT_LAYER_NAME\<close> of
  \<^verbatim>\<open>ufoLib2.constants\<close>, not under \<^verbatim>\<open>src/\<close>. The theorems hold for any value of it; only the examples use the value.
\<close>

definition DEFAULT_LAYER_NAME :: string where
  "DEFAULT_LAYER_NAME = ''public.default''"

subsection \<open>Font\<close>

text \<open>
  The font-wide scalars (info, features text, groups, kerning, lib) are only handed to
  the writer: they are opaque strings. \<^verbatim>\<open>_reader\<close> is the location of the reader kept by a
  lazy \<^verbatim>\<open>open\<close>.
\<close>

record Font =
  layers :: LayerSet
  info :: string
  features :: string
  groups :: string
  kerning :: string
  lib :: string
  data :: "location DataStore"
  images :: "location DataStore"
  p_path :: path_arg
  p_reader :: "location option"
  p_fileStructure :: "UFOFileStructure option"

text \<open>Calls on one writer in sequence; the first exception ends the sequence.\<close>

fun writer_seq :: "'n env \<Rightarrow> location \<Rightarrow> wcall list \<Rightarrow> 'n world \<Rightarrow> error option \<times> 'n world" where
  "writer_seq env loc [] w = (None, w)"
| "writer_seq env loc (c # cs) w =
     (case writer_do env loc c w of
        (Some e, w1) \<Rightarrow> (Some e, w1)
      | (None, w1) \<Rightarrow> writer_seq env loc cs w1)"

text \<open>
  \<^verbatim>\<open>Font.write\<close>. The writer is given by its location. \<open>saveAs\<close> is the flag after the
  default \<^verbatim>\<open>None\<close> has been resolved (by an identity test of the writer against
  \<^verbatim>\<open>_reader\<close>, which yields one of the two values; \<^verbatim>\<open>save\<close> always passes the flag). The
  \<^verbatim>\<open>assert\<close> raises \<^verbatim>\<open>AssertionError\<close>, as it does unless Python runs with \<^verbatim>\<open>-O\<close>. A store
  that was written stays as its \<^verbatim>\<open>write\<close> left it when a later step raises.
\<close>

definition Font_write ::
  "'n env \<Rightarrow> Font \<Rightarrow> location \<Rightarrow> bool \<Rightarrow> 'n world \<Rightarrow> error option \<times> Font \<times> 'n world" where
  "Font_write env font writer saveAs w =
     (if defaultLayer_name (layers font) \<noteq> DEFAULT_LAYER_NAME \<and>
         \<not> (DEFAULT_LAYER_NAME \<notin> set (layerOrder (layers font)))
      then (Some AssertionError, font, w)
      else
        (case writer_seq env writer
                [WriteFeatures (features font), WriteGroups (groups font),
                 WriteInfo (info font), WriteKerning (kerning font), WriteLib (lib font)] w of
           (Some e, w1) \<Rightarrow> (Some e, font, w1)
         | (None, w1) \<Rightarrow>
             (case LayerSet_write env (layers font) writer saveAs w1 of
                (Some e, ls, w2) \<Rightarrow> (Some e, font\<lparr>layers := ls\<rparr>, w2)
              | (None, ls, w2) \<Rightarrow>
                  (case DataStore_write (DataSet env) (data font) writer saveAs w2 of
                     (Some e, d, w3, tr) \<Rightarrow> (Some e, font\<lparr>layers := ls, data := d\<rparr>, w3)
                   | (None, d, w3, tr) \<Rightarrow>
                       (case DataStore_write (ImageSet env) (images font) writer saveAs w3 of
                          (e, i, w4, tr') \<Rightarrow>
                            (e, font\<lparr>layers := ls, data := d, images := i\<rparr>, w4))))))"

subsection \<open>Font.save\<close>

text \<open>
  The \<^verbatim>\<open>structure\<close> argument: an explicit value is validated, else the structure the font
  was opened with is taken, else \<^verbatim>\<open>None\<close> is passed on to the writer.
\<close>

definition resolve_structure ::
  "string option \<Rightarrow> Font \<Rightarrow> error + UFOFileStructure option" where
  "resolve_structure structure font =
     (case structure of
        Some s \<Rightarrow> (case UFOFileStructure_of s of Inl e \<Rightarrow> Inl e | Inr st \<Rightarrow> Inr (Some st))
      | None \<Rightarrow> Inr (p_fileStructure font))"

text \<open>
  \<^verbatim>\<open>fs.tempfs.TempFS()\<close> makes a new, empty directory; \<^verbatim>\<open>tmp.close()\<close> removes it with all
  it holds.
\<close>

definition TempFS_create :: "'n world \<Rightarrow> 'n world" where
  "TempFS_create w =
     w\<lparr>entries := (\<lambda>l. if is_staged l then None else entries w l), tmpdir := True\<rparr>"

definition TempFS_close :: "'n world \<Rightarrow> 'n world" where
  "TempFS_close w =
     w\<lparr>entries := (\<lambda>l. if is_staged l then None else entries w l), tmpdir := False\<rparr>"

text \<open>
  The body of the \<^verbatim>\<open>try\<close>: the \<^verbatim>\<open>with\<close> statement (the constructor; \<^verbatim>\<open>self.write\<close>; then
  \<^verbatim>\<open>__exit__\<close>, which closes the writer also when \<^verbatim>\<open>write\<close> raised, and whose own exception
  replaces the one in flight) followed by \<^verbatim>\<open>writer.setModificationTime()\<close>.
\<close>

definition save_try ::
  "'n env \<Rightarrow> Font \<Rightarrow> location \<Rightarrow> UFOFileStructure option \<Rightarrow> bool \<Rightarrow> bool \<Rightarrow> 'n world \<Rightarrow>
   error option \<times> Font \<times> 'n world" where
  "save_try env font loc structure validate saveAs w =
     (case writer_do env loc (Open structure validate) w of
        (Some e, w1) \<Rightarrow> (Some e, font, w1)
      | (None, w1) \<Rightarrow>
          (case Font_write env font loc saveAs w1 of
             (Some e, font2, w2) \<Rightarrow>
               (case writer_do env loc Close w2 of
                  (Some e', w3) \<Rightarrow> (Some e', font2, w3)
                | (None, w3) \<Rightarrow> (Some e, font2, w3))
           | (None, font2, w2) \<Rightarrow>
               (case writer_do env loc Close w2 of
                  (Some e', w3) \<Rightarrow> (Some e', font2, w3)
                | (None, w3) \<Rightarrow>
                    (case writer_do env loc SetModificationTime w3 of
                       (e, w4) \<Rightarrow> (e, font2, w4)))))"

text \<open>
  The \<^verbatim>\<open>else\<close> clause when \<^verbatim>\<open>overwritePath\<close> is set: remove what exists at the destination
  (a directory, else a file), then move the staged entry there.
\<close>

definition replace_existing ::
  "'n env \<Rightarrow> location \<Rightarrow> string \<Rightarrow> 'n world \<Rightarrow> error option \<times> 'n world" where
  "replace_existing env staged overwritePath w =
     (case (case entries w (Path overwritePath) of
              None \<Rightarrow> (None, w)
            | Some n \<Rightarrow>
                if isdir env n
                then (case rmtree env n of
                        (e, n') \<Rightarrow> (e, w\<lparr>entries := (entries w)(Path overwritePath := n')\<rparr>))
                else if isfile env n
                then (case remove env n of
                        (e, n') \<Rightarrow> (e, w\<lparr>entries := (entries w)(Path overwritePath := n')\<rparr>))
                else (None, w)) of
        (Some e, w1) \<Rightarrow> (Some e, w1)
      | (None, w1) \<Rightarrow>
          (case shutil_move env (entries w1 staged) (entries w1 (Path overwritePath)) of
             (e, src, dst) \<Rightarrow>
               (e, w1\<lparr>entries := (entries w1)(staged := src, Path overwritePath := dst)\<rparr>)))"

text \<open>
  \<^verbatim>\<open>Font.save\<close>. \<open>formatVersion\<close> is a Python integer. The three results are the
  exception that leaves \<^verbatim>\<open>save\<close>, if any, the font and the file system.
\<close>

definition save ::
  "'n env \<Rightarrow> Font \<Rightarrow> path_arg \<Rightarrow> int \<Rightarrow> string option \<Rightarrow> bool \<Rightarrow> bool \<Rightarrow> 'n world \<Rightarrow>
   error option \<times> Font \<times> 'n world" where
  "save env font path formatVersion structure overwrite validate w =
     (if formatVersion \<noteq> 3 then (Some NotImplementedError, font, w)
      else
        (case resolve_structure structure font of
           Inl e \<Rightarrow> (Some e, font, w)
         | Inr st \<Rightarrow>
             (case (case path of StrPath p \<Rightarrow> StrPath (normpath env p) | FSPath h \<Rightarrow> FSPath h
                    | NoPath \<Rightarrow> NoPath) of
                StrPath p \<Rightarrow>
                  if entries w (Path p) \<noteq> None
                  then
                    (if overwrite
                     then
                       (case save_try env font (Staged (basename env p)) st validate True
                               (TempFS_create w) of
                          (Some e, font1, w1) \<Rightarrow> (Some e, font1, TempFS_close w1)
                        | (None, font1, w1) \<Rightarrow>
                            (case replace_existing env (Staged (basename env p)) p w1 of
                               (Some e, w2) \<Rightarrow> (Some e, font1, TempFS_close w2)
                             | (None, w2) \<Rightarrow>
                                 (None, font1\<lparr>p_path := StrPath p\<rparr>, TempFS_close w2)))
                     else (Some (OSError_EEXIST p), font, w))
                  else
                    (case save_try env font (Path p) st validate True w of
                       (Some e, font1, w1) \<Rightarrow> (Some e, font1, w1)
                     | (None, font1, w1) \<Rightarrow> (None, font1\<lparr>p_path := StrPath p\<rparr>, w1))
              | FSPath h \<Rightarrow>
                  (case save_try env font (Filesystem h) st validate True w of
                     (Some e, font1, w1) \<Rightarrow> (Some e, font1, w1)
                   | (None, font1, w1) \<Rightarrow> (None, font1\<lparr>p_path := FSPath h\<rparr>, w1))
              | NoPath \<Rightarrow>
                  if p_path font = NoPath then (Some TypeError, font, w)
                  else
                    (case save_try env font (location_of (p_path font)) st validate False w of
                       (Some e, font1, w1) \<Rightarrow> (Some e, font1, w1)
                     | (None, font1, w1) \<Rightarrow> (None, font1\<lparr>p_path := p_path font\<rparr>, w1)))))"

text \<open>
  What a writer bound to \<open>loc\<close> may do to the file system: change the entry at \<open>loc\<close>, and
  add calls at \<open>loc\<close> to the record of writer calls.
\<close>

definition writes_only_at :: "location \<Rightarrow> 'n world \<Rightarrow> 'n world \<Rightarrow> bool" where
  "writes_only_at loc w w' =
     ((\<forall>l. l \<noteq> loc \<longrightarrow> entries w' l = entries w l) \<and> tmpdir w' = tmpdir w \<and>
      (\<exists>new. wlog w' = wlog w @ new \<and> (\<forall>x \<in> set new. fst x = loc)))"

subsection \<open>An executable file system\<close>

text \<open>
  An executable file system for the examples. An entry is a directory or a file that
  holds the calls written to it. The writer creates a missing entry when constructed (a
  file for the zip structure, a directory otherwise), appends every call to the entry,
  and raises on data named \<^verbatim>\<open>bad\<close>, leaving a partial write behind. The reader lists
  nothing, \<^verbatim>\<open>LayerSet.write\<close> writes nothing, and removing and moving succeed.
\<close>

datatype node = Dir "wcall list" | File "wcall list"

fun wrote :: "wcall \<Rightarrow> node \<Rightarrow> node" where
  "wrote c (Dir cs) = Dir (cs @ [c])"
| "wrote c (File cs) = File (cs @ [c])"

fun is_Dir :: "node \<Rightarrow> bool" where
  "is_Dir (Dir cs) = True"
| "is_Dir (File cs) = False"

fun demo_writer_call :: "wcall \<Rightarrow> node option \<Rightarrow> error option \<times> node option" where
  "demo_writer_call (Open st v) None = (None, Some (if st = Some ZIP then File [] else Dir []))"
| "demo_writer_call (Open st v) (Some n) = (None, Some n)"
| "demo_writer_call (WriteData f v) n =
     (if f = ''bad'' then (Some (OtherError ''disk full''), n)
      else (None, map_option (wrote (WriteData f v)) n))"
| "demo_writer_call c n = (None, map_option (wrote c) n)"

definition demo_env :: "node env" where
  "demo_env =
     \<lparr>normpath = (\<lambda>p. p),
      basename = (\<lambda>p. rev (takeWhile (\<lambda>c. c \<noteq> CHR ''/'') (rev p))),
      isdir = is_Dir,
      isfile = (\<lambda>n. \<not> is_Dir n),
      writer_call = demo_writer_call,
      reader_list = (\<lambda>k n. Inr []),
      reader_read = (\<lambda>k f n. Inl (OtherError f)),
      layers_write = (\<lambda>ls saveAs view n. (None, ls, n)),
      rmtree = (\<lambda>n. (None, None)),
      remove = (\<lambda>n. (None, None)),
      shutil_move = (\<lambda>src dst. (None, None, src))\<rparr>"

text \<open>
  A font with one data file; the same font with a second data file, named \<^verbatim>\<open>bad\<close>, on
  which the writer raises; the same font with a default layer named \<^verbatim>\<open>foreground\<close> and
  another layer that bears the reserved name; and a disk that holds one font source, at
  \<^verbatim>\<open>font.ufo\<close>.
\<close>

definition demo_font :: Font where
  "demo_font =
     \<lparr>layers = \<lparr>layerOrder = [DEFAULT_LAYER_NAME, ''background''],
                 defaultLayer_name = DEFAULT_LAYER_NAME\<rparr>,
      info = ''info'', features = ''fea'', groups = ''groups'', kerning = ''kerning'',
      lib = ''lib'',
      data = \<lparr>p_data = [(''a'', Loaded ''1'')], p_scheduledForDeletion = [], reader = None\<rparr>,
      images = \<lparr>p_data = [], p_scheduledForDeletion = [], reader = None\<rparr>,
      p_path = StrPath ''old.ufo'', p_reader = None, p_fileStructure = None\<rparr>"

definition demo_font_bad :: Font where
  "demo_font_bad =
     demo_font\<lparr>data := \<lparr>p_data = [(''a'', Loaded ''1''), (''bad'', Loaded ''2'')],
                          p_scheduledForDeletion = [], reader = None\<rparr>\<rparr>"

definition demo_font_reserved :: Font where
  "demo_font_reserved =
     demo_font\<lparr>layers := \<lparr>layerOrder = [''foreground'', DEFAULT_LAYER_NAME],
                            defaultLayer_name = ''foreground''\<rparr>\<rparr>"

definition demo_disk :: "node world" where
  "demo_disk =
     \<lparr>entries = (\<lambda>l. if l = Path ''font.ufo'' then Some (Dir [WriteFeatures ''old'']) else None),
      tmpdir = False, wlog = []\<rparr>"
section \<open>Properties of DataStore\<close>

lemma map_of_Some_key: "map_of al k = Some x \<Longrightarrow> k \<in> fst ` set al"
  by (metis domI dom_map_of_conv_image_fst)

lemma getitem_keeps_loaded:
  "getitem cls s f w = (r, s1, tr) \<Longrightarrow> map_of (p_data s) k = Some (Loaded v) \<Longrightarrow>
   map_of (p_data s1) k = Some (Loaded v)"
  by (auto simp: getitem_def update_conv' split: option.splits entry.splits sum.splits)

lemma getitem_keeps_other:
  "getitem cls s f w = (r, s1, tr) \<Longrightarrow> f \<noteq> k \<Longrightarrow> map_of (p_data s1) k = map_of (p_data s) k"
  by (auto simp: getitem_def update_conv' split: option.splits entry.splits sum.splits)

lemma getitem_keeps_rest:
  "getitem cls s f w = (r, s1, tr) \<Longrightarrow>
   reader s1 = reader s \<and> p_scheduledForDeletion s1 = p_scheduledForDeletion s
   \<and> map fst (p_data s1) = map fst (p_data s)"
  by (auto simp: getitem_def update_keys split: option.splits entry.splits sum.splits
      dest: map_of_Some_key)

lemma getitem_calls:
  "getitem cls s f w = (r, s1, tr) \<Longrightarrow> DeleteF k \<notin> set tr \<and> WriteF k v \<notin> set tr"
  by (auto simp: getitem_def split: option.splits entry.splits sum.splits)

lemma delete_scheduled_calls:
  "delete_scheduled cls wr fs w = (r, w', tr) \<Longrightarrow> c \<in> set tr \<Longrightarrow> \<exists>k \<in> set fs. c = DeleteF k"
proof (induction fs arbitrary: w r w' tr)
  case Nil
  then show ?case by simp
next
  case (Cons f fs)
  obtain e w1 where d: "deletef cls wr f w = (e, w1)"
    by (cases "deletef cls wr f w") auto
  show ?case
  proof (cases e)
    case (Some x)
    then show ?thesis using Cons.prems d by auto
  next
    case None
    obtain r2 w2 tr2 where ds: "delete_scheduled cls wr fs w1 = (r2, w2, tr2)"
      by (cases "delete_scheduled cls wr fs w1") auto
    have "tr = DeleteF f # tr2" using Cons.prems(1) d None ds by simp
    then have "c = DeleteF f \<or> c \<in> set tr2" using Cons.prems(2) by auto
    then show ?thesis using Cons.IH [OF ds] by auto
  qed
qed

lemma write_items_no_delete:
  "write_items cls wr fs s w = (r, s', w', tr) \<Longrightarrow> DeleteF k \<notin> set tr"
proof (induction fs arbitrary: s w r s' w' tr)
  case Nil
  then show ?case by simp
next
  case (Cons f fs)
  obtain g s1 tr1 where g: "getitem cls s f w = (g, s1, tr1)"
    by (cases "getitem cls s f w") auto
  have n1: "DeleteF k \<notin> set tr1" using getitem_calls [OF g] by simp
  show ?case
  proof (cases g)
    case (Inl e)
    then show ?thesis using Cons.prems g n1 by simp
  next
    case (Inr v)
    obtain e w1 where wf: "writef cls wr f v w = (e, w1)"
      by (cases "writef cls wr f v w") auto
    show ?thesis
    proof (cases e)
      case (Some x)
      then show ?thesis using Cons.prems g Inr wf n1 by auto
    next
      case None
      obtain r2 s2 w2 tr2 where wi: "write_items cls wr fs s1 w1 = (r2, s2, w2, tr2)"
        by (cases "write_items cls wr fs s1 w1") auto
      have "tr = tr1 @ WriteF f v # tr2" using Cons.prems g Inr wf None wi by simp
      then show ?thesis using n1 Cons.IH [OF wi] by simp
    qed
  qed
qed

lemma write_items_step:
  assumes "write_items cls wr (f # fs) s w = (None, s', w', tr)"
  obtains v s1 tr1 w1 tr2 where
    "getitem cls s f w = (Inr v, s1, tr1)" "writef cls wr f v w = (None, w1)"
    "write_items cls wr fs s1 w1 = (None, s', w', tr2)" "tr = tr1 @ WriteF f v # tr2"
  using assms by (auto split: prod.splits option.splits sum.splits)

lemma write_items_writes_loaded:
  "write_items cls wr fs s w = (None, s', w', tr) \<Longrightarrow> k \<in> set fs \<Longrightarrow>
   map_of (p_data s) k = Some (Loaded v) \<Longrightarrow> WriteF k v \<in> set tr"
proof (induction fs arbitrary: s w tr)
  case Nil
  then show ?case by simp
next
  case (Cons f fs)
  from Cons.prems(1) obtain u s1 tr1 w1 tr2 where
    g: "getitem cls s f w = (Inr u, s1, tr1)" and
    wi: "write_items cls wr fs s1 w1 = (None, s', w', tr2)" and
    tr: "tr = tr1 @ WriteF f u # tr2"
    by (rule write_items_step)
  have k1: "map_of (p_data s1) k = Some (Loaded v)"
    using getitem_keeps_loaded [OF g Cons.prems(3)] .
  show ?case
  proof (cases "f = k")
    case True
    have "u = v"
      using g Cons.prems(3) True by (auto simp: getitem_def)
    then show ?thesis using tr True by simp
  next
    case False
    then have "k \<in> set fs" using Cons.prems(2) by simp
    then have "WriteF k v \<in> set tr2" using Cons.IH [OF wi _ k1] by simp
    then show ?thesis using tr by simp
  qed
qed

lemma exclusive_setitem: "exclusive s \<Longrightarrow> exclusive (setitem s k v)"
  by (auto simp: exclusive_def setitem_def dom_update)

lemma exclusive_delitem: "exclusive s \<Longrightarrow> exclusive (snd (delitem s k))"
proof -
  assume e: "exclusive s"
  have "fst ` set (AList.delete k (p_data s)) \<subseteq> fst ` set (p_data s) - {k}"
    using delete_notin_dom [of k "p_data s"] dom_delete_subset [of k "p_data s"] by blast
  then have "fst ` set (AList.delete k (p_data s)) \<inter> insert k (set (p_scheduledForDeletion s)) = {}"
    using e unfolding exclusive_def by blast
  then show ?thesis using e by (simp add: exclusive_def delitem_def)
qed

lemma exclusive_init: "exclusive (DataStore_init d)"
  by (simp add: exclusive_def DataStore_init_def)

lemma exclusive_read: "DataStore_read cls r lazy w = (Inr s, tr) \<Longrightarrow> exclusive s"
  by (auto simp: exclusive_def DataStore_read_def split: sum.splits prod.splits)

lemma exclusive_apply_ops: "exclusive s \<Longrightarrow> exclusive (apply_ops s ops)"
  by (induction s ops rule: apply_ops.induct) (simp_all add: exclusive_setitem exclusive_delitem)

lemma setitem_effect:
  "map_of (p_data (setitem s k v)) k = Some (Loaded v) \<and>
   k \<notin> set (p_scheduledForDeletion (setitem s k v)) \<and>
   k \<in> set (map fst (p_data (setitem s k v)))"
  by (simp add: setitem_def update_conv' dom_update)

lemma delitem_effect:
  "k \<in> fst ` set (p_data s) \<Longrightarrow>
   fst (delitem s k) = None \<and> k \<notin> fst ` set (p_data (snd (delitem s k))) \<and>
   k \<in> set (p_scheduledForDeletion (snd (delitem s k)))"
  by (simp add: delitem_def delete_notin_dom)

lemma write_after_set:
  assumes "DataStore_write cls (setitem s k v) wr False w = (res, s', w', tr)"
  shows "DeleteF k \<notin> set tr \<and> (res = None \<longrightarrow> WriteF k v \<in> set tr)"
proof -
  let ?s = "setitem s k v"
  obtain r1 w1 tr1 where d: "delete_scheduled cls wr (p_scheduledForDeletion ?s) w = (r1, w1, tr1)"
    by (cases "delete_scheduled cls wr (p_scheduledForDeletion ?s) w") auto
  have nd1: "DeleteF k \<notin> set tr1"
    using delete_scheduled_calls [OF d] setitem_effect [of s k v] by auto
  show ?thesis
  proof (cases r1)
    case (Some e)
    then show ?thesis using assms d nd1 by (auto simp: DataStore_write_def)
  next
    case None
    obtain r2 s2 w2 tr2 where wi: "write_items cls wr (map fst (p_data ?s)) ?s w1 = (r2, s2, w2, tr2)"
      by (cases "write_items cls wr (map fst (p_data ?s)) ?s w1") auto
    have tr: "tr = tr1 @ tr2" and res: "res = r2"
      using assms d None wi by (auto simp: DataStore_write_def split: option.splits)
    have nd2: "DeleteF k \<notin> set tr2" using write_items_no_delete [OF wi] .
    have "r2 = None \<Longrightarrow> WriteF k v \<in> set tr2"
      using write_items_writes_loaded [of cls wr _ ?s w1 s2 w2 tr2 k v] wi setitem_effect [of s k v]
      by simp
    then show ?thesis using tr res nd1 nd2 by auto
  qed
qed

text \<open>
  Claim C2. Starting from a store whose data keys and pending-deletion set are disjoint,
  as every constructed store and every store returned by \<open>DataStore_read\<close> is, no sequence
  of set and delete operations leaves a key in both. \<open>setitem\<close> stores the value as loaded and clears
  the key's pending flag; \<open>delitem\<close> of a present key removes it from the data and adds it
  to the pending set (an absent key raises \<open>KeyError\<close> and changes nothing). After delete
  then set of \<open>k\<close>, a write with \<open>saveAs = False\<close> never calls \<open>deletef\<close> for \<open>k\<close>, and
  when it returns normally it has called \<open>writef\<close> with \<open>k\<close> and \<open>v\<close>.
\<close>

theorem pending_deletion_exclusive:
  fixes s0 :: "'r DataStore"
  assumes "fst ` set (p_data s0) \<inter> set (p_scheduledForDeletion s0) = {}"
  shows "fst ` set (p_data (apply_ops s0 ops)) \<inter> set (p_scheduledForDeletion (apply_ops s0 ops)) = {}
    \<and> map_of (p_data (setitem s k v)) k = Some (Loaded v)
    \<and> k \<notin> set (p_scheduledForDeletion (setitem s k v))
    \<and> (k \<in> fst ` set (p_data s) \<longrightarrow>
         fst (delitem s k) = None \<and> k \<notin> fst ` set (p_data (snd (delitem s k))) \<and>
         k \<in> set (p_scheduledForDeletion (snd (delitem s k))))
    \<and> (k \<notin> fst ` set (p_data s) \<longrightarrow> delitem s k = (Some (KeyError k), s))
    \<and> (DataStore_write cls (setitem (snd (delitem s k)) k v) wr False w = (res, s', w', tr) \<longrightarrow>
         DeleteF k \<notin> set tr \<and> (res = None \<longrightarrow> WriteF k v \<in> set tr))
    \<and> fst ` set (p_data (apply_ops (DataStore_init d :: 'r DataStore) ops)) \<inter>
        set (p_scheduledForDeletion (apply_ops (DataStore_init d :: 'r DataStore) ops)) = {}
    \<and> (DataStore_read cls r lazy w0 = (Inr sr, tr0) \<longrightarrow>
         fst ` set (p_data (apply_ops sr ops)) \<inter>
         set (p_scheduledForDeletion (apply_ops sr ops)) = {})"
proof -
  have i: "fst ` set (p_data (apply_ops (DataStore_init d :: 'r DataStore) ops)) \<inter>
        set (p_scheduledForDeletion (apply_ops (DataStore_init d :: 'r DataStore) ops)) = {}"
    using exclusive_apply_ops [OF exclusive_init, of d ops] by (simp add: exclusive_def)
  have j: "DataStore_read cls r lazy w0 = (Inr sr, tr0) \<longrightarrow>
         fst ` set (p_data (apply_ops sr ops)) \<inter>
         set (p_scheduledForDeletion (apply_ops sr ops)) = {}"
    using exclusive_apply_ops [OF exclusive_read, of cls r lazy w0 sr tr0 ops]
    by (simp add: exclusive_def)
  have "exclusive (apply_ops s0 ops)"
    using assms exclusive_apply_ops [of s0 ops] by (simp add: exclusive_def)
  then have a: "fst ` set (p_data (apply_ops s0 ops)) \<inter> set (p_scheduledForDeletion (apply_ops s0 ops)) = {}"
    by (simp add: exclusive_def)
  have b: "k \<notin> fst ` set (p_data s) \<longrightarrow> delitem s k = (Some (KeyError k), s)"
    by (simp add: delitem_def)
  have c: "map_of (p_data (setitem s k v)) k = Some (Loaded v)
    \<and> k \<notin> set (p_scheduledForDeletion (setitem s k v))"
    using setitem_effect [of s k v] by simp
  have e: "k \<in> fst ` set (p_data s) \<longrightarrow>
         fst (delitem s k) = None \<and> k \<notin> fst ` set (p_data (snd (delitem s k))) \<and>
         k \<in> set (p_scheduledForDeletion (snd (delitem s k)))"
    using delitem_effect [of k s] by simp
  have f: "DataStore_write cls (setitem (snd (delitem s k)) k v) wr False w = (res, s', w', tr) \<longrightarrow>
         DeleteF k \<notin> set tr \<and> (res = None \<longrightarrow> WriteF k v \<in> set tr)"
    using write_after_set [of cls "snd (delitem s k)" k v wr w res s' w' tr] by simp
  show ?thesis
    using a c e b f i j by (intro conjI) (erule conjunct1 conjunct2 | assumption)+
qed

theorem pending_deletion_exclusive_witness:
  "fst ` set (p_data demo_store) \<inter> set (p_scheduledForDeletion demo_store) = {}
   \<and> apply_ops demo_store [DelItem ''a'', SetItem ''c'' ''5'', DelItem ''zz''] =
       \<lparr>p_data = [(''b'', NOT_LOADED), (''c'', Loaded ''5'')],
        p_scheduledForDeletion = [''a''], reader = Some ''src''\<rparr>
   \<and> ''a'' \<in> fst ` set (p_data demo_store)
   \<and> delitem demo_store ''a'' =
       (None, \<lparr>p_data = [(''b'', NOT_LOADED)], p_scheduledForDeletion = [''a'', ''c''],
               reader = Some ''src''\<rparr>)
   \<and> DataStore_write demo_cls (setitem (snd (delitem demo_store ''a'')) ''a'' ''2'') ''src'' False
        demo_world =
       (None,
        \<lparr>p_data = [(''b'', Loaded ''9''), (''a'', Loaded ''2'')], p_scheduledForDeletion = [],
          reader = Some ''src''\<rparr>,
        [(''src'', [(''a'', ''2''), (''b'', ''9'')]), (''dst'', [])],
        [DeleteF ''c'', ReadF ''b'' (Inr ''9''), WriteF ''b'' ''9'', WriteF ''a'' ''2''])
   \<and> DeleteF ''a'' \<notin> set [DeleteF ''c'', ReadF ''b'' (Inr ''9''), WriteF ''b'' ''9'', WriteF ''a'' ''2'']
   \<and> WriteF ''a'' ''2'' \<in> set [DeleteF ''c'', ReadF ''b'' (Inr ''9''), WriteF ''b'' ''9'', WriteF ''a'' ''2'']"
  using pending_deletion_exclusive [of demo_store
      "[DelItem ''a'', SetItem ''c'' ''5'', DelItem ''zz'']" demo_store "''a''" "''2''" demo_cls
      "''src''" demo_world]
  by (simp add: demo_store_def demo_cls_def demo_world_def container_def DataStore_write_def
      setitem_def delitem_def getitem_def)

lemma write_items_keeps_loaded:
  "write_items cls wr fs s w = (r, s', w', tr) \<Longrightarrow> map_of (p_data s) k = Some (Loaded v) \<Longrightarrow>
   map_of (p_data s') k = Some (Loaded v)"
proof (induction fs arbitrary: s w r tr s' w')
  case Nil
  then show ?case by simp
next
  case (Cons f fs)
  obtain g s1 tr1 where g: "getitem cls s f w = (g, s1, tr1)"
    by (cases "getitem cls s f w") auto
  have k1: "map_of (p_data s1) k = Some (Loaded v)"
    using getitem_keeps_loaded [OF g Cons.prems(2)] .
  show ?case
  proof (cases g)
    case (Inl e)
    then show ?thesis using Cons.prems(1) g k1 by simp
  next
    case (Inr u)
    obtain e w1 where wf: "writef cls wr f u w = (e, w1)"
      by (cases "writef cls wr f u w") auto
    show ?thesis
    proof (cases e)
      case (Some x)
      then show ?thesis using Cons.prems(1) g Inr wf k1 by simp
    next
      case None
      obtain r2 s2 w2 tr2 where wi: "write_items cls wr fs s1 w1 = (r2, s2, w2, tr2)"
        by (cases "write_items cls wr fs s1 w1") auto
      have "s' = s2" using Cons.prems(1) g Inr wf None wi by simp
      then show ?thesis using Cons.IH [OF wi k1] by simp
    qed
  qed
qed

lemma write_items_keeps_rest:
  "write_items cls wr fs s w = (r, s', w', tr) \<Longrightarrow>
   reader s' = reader s \<and> p_scheduledForDeletion s' = p_scheduledForDeletion s \<and>
   map fst (p_data s') = map fst (p_data s)"
proof (induction fs arbitrary: s w r tr s' w')
  case Nil
  then show ?case by simp
next
  case (Cons f fs)
  obtain g s1 tr1 where g: "getitem cls s f w = (g, s1, tr1)"
    by (cases "getitem cls s f w") auto
  note k1 = getitem_keeps_rest [OF g]
  show ?case
  proof (cases g)
    case (Inl e)
    then show ?thesis using Cons.prems(1) g k1 by simp
  next
    case (Inr u)
    obtain e w1 where wf: "writef cls wr f u w = (e, w1)"
      by (cases "writef cls wr f u w") auto
    show ?thesis
    proof (cases e)
      case (Some x)
      then show ?thesis using Cons.prems(1) g Inr wf k1 by simp
    next
      case None
      obtain r2 s2 w2 tr2 where wi: "write_items cls wr fs s1 w1 = (r2, s2, w2, tr2)"
        by (cases "write_items cls wr fs s1 w1") auto
      have "s' = s2" using Cons.prems(1) g Inr wf None wi by simp
      then show ?thesis using Cons.IH [OF wi] k1 by simp
    qed
  qed
qed

lemma getitem_not_loaded:
  "getitem cls s k w = (Inr u, s1, tr1) \<Longrightarrow> map_of (p_data s) k = Some NOT_LOADED \<Longrightarrow>
   tr1 = [ReadF k (Inr u)] \<and> map_of (p_data s1) k = Some (Loaded u) \<and> reader s \<noteq> None"
  by (auto simp: getitem_def update_conv' split: option.splits sum.splits)

lemma write_items_pulls_through:
  "write_items cls wr fs s w = (None, s', w', tr) \<Longrightarrow> k \<in> set fs \<Longrightarrow>
   map_of (p_data s) k = Some NOT_LOADED \<Longrightarrow>
   reader s \<noteq> None \<and>
   (\<exists>v t1 t2. tr = t1 @ [ReadF k (Inr v), WriteF k v] @ t2 \<and> map_of (p_data s') k = Some (Loaded v))"
proof (induction fs arbitrary: s w tr)
  case Nil
  then show ?case by simp
next
  case (Cons f fs)
  from Cons.prems(1) obtain u s1 tr1 w1 tr2 where
    g: "getitem cls s f w = (Inr u, s1, tr1)" and
    wi: "write_items cls wr fs s1 w1 = (None, s', w', tr2)" and
    tr: "tr = tr1 @ WriteF f u # tr2"
    by (rule write_items_step)
  show ?case
  proof (cases "f = k")
    case True
    have a: "tr1 = [ReadF k (Inr u)]" and b: "map_of (p_data s1) k = Some (Loaded u)"
      and rd: "reader s \<noteq> None"
      using getitem_not_loaded [of cls s k w u s1 tr1] g True Cons.prems(3) by simp_all
    have c: "map_of (p_data s') k = Some (Loaded u)"
      using write_items_keeps_loaded [OF wi b] .
    have "tr = [] @ [ReadF k (Inr u), WriteF k u] @ tr2" using tr a True by simp
    then show ?thesis using c rd by blast
  next
    case False
    then have kin: "k \<in> set fs" using Cons.prems(2) by simp
    have k1: "map_of (p_data s1) k = Some NOT_LOADED"
      using getitem_keeps_other [OF g False] Cons.prems(3) by simp
    have rd: "reader s \<noteq> None"
      using Cons.IH [OF wi kin k1] getitem_keeps_rest [OF g] by simp
    obtain v t1 t2 where t: "tr2 = t1 @ [ReadF k (Inr v), WriteF k v] @ t2"
      and l: "map_of (p_data s') k = Some (Loaded v)"
      using Cons.IH [OF wi kin k1] by blast
    have "tr = (tr1 @ WriteF f u # t1) @ [ReadF k (Inr v), WriteF k v] @ t2"
      using tr t by simp
    then show ?thesis using l rd by blast
  qed
qed

lemma write_items_writes_all:
  "write_items cls wr fs s w = (None, s', w', tr) \<Longrightarrow> k \<in> set fs \<Longrightarrow> \<exists>v. WriteF k v \<in> set tr"
proof (induction fs arbitrary: s w tr)
  case Nil
  then show ?case by simp
next
  case (Cons f fs)
  from Cons.prems(1) obtain u s1 tr1 w1 tr2 where
    wi: "write_items cls wr fs s1 w1 = (None, s', w', tr2)" and
    tr: "tr = tr1 @ WriteF f u # tr2"
    by (rule write_items_step)
  show ?case
  proof (cases "f = k")
    case True
    then show ?thesis using tr by auto
  next
    case False
    then have "k \<in> set fs" using Cons.prems(2) by simp
    then obtain v where "WriteF k v \<in> set tr2" using Cons.IH [OF wi] by blast
    then show ?thesis using tr by auto
  qed
qed

lemma write_saveAs_unfold:
  assumes "DataStore_write cls s wr True w = (res, s', w', tr)"
  obtains s2 where "write_items cls wr (map fst (p_data s)) s w = (res, s2, w', tr)"
    "res = None \<Longrightarrow> s' = s2\<lparr>p_scheduledForDeletion := [], reader := None\<rparr>"
    "res \<noteq> None \<Longrightarrow> s' = s2"
  using assms by (auto simp: DataStore_write_def split: prod.splits option.splits)

text \<open>
  Claim C3. When a write with \<open>saveAs = True\<close> returns normally: every entry that was
  still the sentinel had a reader to come from, was read (\<open>ReadF\<close>) and the payload read
  was written next (\<open>WriteF\<close>); every loaded entry was written as it was; every key of
  the store was written, none was dropped; and the store no longer has its reader.
\<close>

theorem saveAs_pulls_through:
  assumes "DataStore_write cls s wr True w = (None, s', w', tr)"
  shows "(\<forall>k. map_of (p_data s) k = Some NOT_LOADED \<longrightarrow>
            reader s \<noteq> None \<and>
            (\<exists>v t1 t2. tr = t1 @ [ReadF k (Inr v), WriteF k v] @ t2 \<and>
                       map_of (p_data s') k = Some (Loaded v)))
       \<and> (\<forall>k v. map_of (p_data s) k = Some (Loaded v) \<longrightarrow>
            WriteF k v \<in> set tr \<and> map_of (p_data s') k = Some (Loaded v))
       \<and> (\<forall>k \<in> fst ` set (p_data s). \<exists>v. WriteF k v \<in> set tr)
       \<and> map fst (p_data s') = map fst (p_data s)
       \<and> reader s' = None"
proof -
  from assms obtain s2 where
    wi: "write_items cls wr (map fst (p_data s)) s w = (None, s2, w', tr)" and
    s': "s' = s2\<lparr>p_scheduledForDeletion := [], reader := None\<rparr>"
    by (rule write_saveAs_unfold) simp
  have d: "p_data s' = p_data s2" using s' by simp
  have a: "map_of (p_data s) k = Some NOT_LOADED \<Longrightarrow>
        reader s \<noteq> None \<and>
        (\<exists>v t1 t2. tr = t1 @ [ReadF k (Inr v), WriteF k v] @ t2 \<and>
                       map_of (p_data s') k = Some (Loaded v))" for k
  proof -
    assume n: "map_of (p_data s) k = Some NOT_LOADED"
    then have kin: "k \<in> set (map fst (p_data s))" using map_of_Some_key [of "p_data s" k] by simp
    show ?thesis
      using write_items_pulls_through [OF wi kin n] d by simp
  qed
  have b: "map_of (p_data s) k = Some (Loaded v) \<Longrightarrow>
        WriteF k v \<in> set tr \<and> map_of (p_data s') k = Some (Loaded v)" for k v
    using write_items_writes_loaded [OF wi, of k v] write_items_keeps_loaded [OF wi, of k v]
      map_of_Some_key [of "p_data s" k] d by simp
  have c: "\<forall>k \<in> fst ` set (p_data s). \<exists>v. WriteF k v \<in> set tr"
    using write_items_writes_all [OF wi] by simp
  have e: "map fst (p_data s') = map fst (p_data s)"
    using write_items_keeps_rest [OF wi] d by simp
  have f: "reader s' = None" using s' by simp
  show ?thesis using a b c e f by blast
qed

theorem saveAs_pulls_through_witness:
  "DataStore_write demo_cls demo_store ''dst'' True demo_world =
     (None,
      \<lparr>p_data = [(''a'', Loaded ''1''), (''b'', Loaded ''9'')], p_scheduledForDeletion = [],
        reader = None\<rparr>,
      [(''src'', [(''a'', ''1''), (''b'', ''9''), (''c'', ''3'')]),
       (''dst'', [(''a'', ''1''), (''b'', ''9'')])],
      [WriteF ''a'' ''1'', ReadF ''b'' (Inr ''9''), WriteF ''b'' ''9''])
   \<and> map_of (p_data demo_store) ''b'' = Some NOT_LOADED
   \<and> reader demo_store \<noteq> None
   \<and> (\<exists>v t1 t2. [WriteF ''a'' ''1'', ReadF ''b'' (Inr ''9''), WriteF ''b'' ''9''] =
          t1 @ [ReadF ''b'' (Inr v), WriteF ''b'' v] @ t2)"
proof -
  have run: "DataStore_write demo_cls demo_store ''dst'' True demo_world =
     (None,
      \<lparr>p_data = [(''a'', Loaded ''1''), (''b'', Loaded ''9'')], p_scheduledForDeletion = [],
        reader = None\<rparr>,
      [(''src'', [(''a'', ''1''), (''b'', ''9''), (''c'', ''3'')]),
       (''dst'', [(''a'', ''1''), (''b'', ''9'')])],
      [WriteF ''a'' ''1'', ReadF ''b'' (Inr ''9''), WriteF ''b'' ''9''])"
    by (simp add: demo_store_def demo_cls_def demo_world_def container_def DataStore_write_def
        getitem_def)
  have nl: "map_of (p_data demo_store) ''b'' = Some NOT_LOADED"
    by (simp add: demo_store_def)
  have "\<forall>k. map_of (p_data demo_store) k = Some NOT_LOADED \<longrightarrow>
            reader demo_store \<noteq> None \<and>
            (\<exists>v t1 t2. [WriteF ''a'' ''1'', ReadF ''b'' (Inr ''9''), WriteF ''b'' ''9''] =
                 t1 @ [ReadF k (Inr v), WriteF k v] @ t2 \<and>
               map_of (p_data \<lparr>p_data = [(''a'', Loaded ''1''), (''b'', Loaded ''9'')],
                  p_scheduledForDeletion = [], reader = None :: string option\<rparr>) k = Some (Loaded v))"
    using saveAs_pulls_through [OF run] by (rule conjunct1)
  then have "reader demo_store \<noteq> None \<and>
            (\<exists>v t1 t2. [WriteF ''a'' ''1'', ReadF ''b'' (Inr ''9''), WriteF ''b'' ''9''] =
                 t1 @ [ReadF ''b'' (Inr v), WriteF ''b'' v] @ t2 \<and>
               map_of (p_data \<lparr>p_data = [(''a'', Loaded ''1''), (''b'', Loaded ''9'')],
                  p_scheduledForDeletion = [], reader = None :: string option\<rparr>) ''b'' = Some (Loaded v))"
    using nl by (elim allE [where x = "''b''"] impE) assumption+
  then have "reader demo_store \<noteq> None \<and>
            (\<exists>v t1 t2. [WriteF ''a'' ''1'', ReadF ''b'' (Inr ''9''), WriteF ''b'' ''9''] =
                 t1 @ [ReadF ''b'' (Inr v), WriteF ''b'' v] @ t2)"
    by (elim conjE exE) (intro conjI exI, assumption+)
  then show ?thesis using run nl by (intro conjI) (erule conjunct1 conjunct2 | assumption)+
qed

lemma write_saveAs_no_delete:
  assumes "DataStore_write cls s wr True w = (res, s', w', tr)"
  shows "DeleteF k \<notin> set tr"
proof -
  from assms obtain s2 where "write_items cls wr (map fst (p_data s)) s w = (res, s2, w', tr)"
    by (rule write_saveAs_unfold)
  then show ?thesis by (rule write_items_no_delete)
qed

lemma write_saveAs_clears:
  assumes "DataStore_write cls s wr True w = (None, s', w', tr)"
  shows "p_scheduledForDeletion s' = []"
proof -
  from assms obtain s2 where "s' = s2\<lparr>p_scheduledForDeletion := [], reader := None\<rparr>"
    by (rule write_saveAs_unfold) simp
  then show ?thesis by simp
qed

lemma write_nothing_scheduled:
  assumes "p_scheduledForDeletion s = []"
  shows "DeleteF k \<notin> set (snd (snd (snd (DataStore_write cls s wr saveAs w))))"
proof -
  obtain r2 s2 w2 tr2 where wi: "write_items cls wr (map fst (p_data s)) s w = (r2, s2, w2, tr2)"
    by (cases "write_items cls wr (map fst (p_data s)) s w") auto
  have nd: "DeleteF k \<notin> set tr2" using wi by (rule write_items_no_delete)
  have "snd (snd (snd (DataStore_write cls s wr saveAs w))) = tr2"
  proof (cases r2)
    case None
    then show ?thesis using assms wi by (simp add: DataStore_write_def)
  next
    case (Some e)
    then show ?thesis using assms wi by (simp add: DataStore_write_def)
  qed
  then show ?thesis using nd by simp
qed

text \<open>
  Claim C9. A write with \<open>saveAs = True\<close> never calls \<open>deletef\<close>; when it returns normally
  the pending-deletion set is empty, so the deletions recorded before it are gone: a
  later write with \<open>saveAs = False\<close>, to any writer, calls \<open>deletef\<close> for none of them.
\<close>

theorem saveAs_discards_deletions:
  assumes "DataStore_write cls s wr True w = (res, s1, w1, tr1)"
  shows "DeleteF k \<notin> set tr1
    \<and> (res = None \<longrightarrow>
         p_scheduledForDeletion s1 = [] \<and>
         DeleteF k \<notin> set (snd (snd (snd (DataStore_write cls2 s1 wr2 False w2)))))"
proof (intro conjI impI)
  show "DeleteF k \<notin> set tr1" using assms by (rule write_saveAs_no_delete)
  assume "res = None"
  then have run: "DataStore_write cls s wr True w = (None, s1, w1, tr1)" using assms by simp
  show c: "p_scheduledForDeletion s1 = []" using run by (rule write_saveAs_clears)
  show "DeleteF k \<notin> set (snd (snd (snd (DataStore_write cls2 s1 wr2 False w2))))"
    using c by (rule write_nothing_scheduled)
qed

theorem saveAs_discards_deletions_witness:
  "DataStore_write demo_cls demo_store ''dst'' True demo_world =
     (None, demo_saved, demo_world_saved,
      [WriteF ''a'' ''1'', ReadF ''b'' (Inr ''9''), WriteF ''b'' ''9''])
   \<and> p_scheduledForDeletion demo_store = [''c'']
   \<and> DeleteF ''c'' \<notin> set [WriteF ''a'' ''1'', ReadF ''b'' (Inr ''9''), WriteF ''b'' ''9'']
   \<and> p_scheduledForDeletion demo_saved = []
   \<and> DataStore_write demo_cls demo_saved ''src'' False demo_world_saved =
       (None, demo_saved, demo_world_saved, [WriteF ''a'' ''1'', WriteF ''b'' ''9''])
   \<and> DeleteF ''c'' \<notin> set (snd (snd (snd (DataStore_write demo_cls demo_saved ''src'' False
         demo_world_saved))))"
proof -
  have run: "DataStore_write demo_cls demo_store ''dst'' True demo_world =
     (None, demo_saved, demo_world_saved,
      [WriteF ''a'' ''1'', ReadF ''b'' (Inr ''9''), WriteF ''b'' ''9''])"
    by (simp add: demo_store_def demo_cls_def demo_world_def demo_saved_def demo_world_saved_def
        container_def DataStore_write_def getitem_def)
  have later: "DataStore_write demo_cls demo_saved ''src'' False demo_world_saved =
       (None, demo_saved, demo_world_saved, [WriteF ''a'' ''1'', WriteF ''b'' ''9''])"
    by (simp add: demo_cls_def demo_saved_def demo_world_saved_def
        container_def DataStore_write_def getitem_def)
  have p: "p_scheduledForDeletion demo_store = [''c'']" by (simp add: demo_store_def)
  note th = saveAs_discards_deletions [OF run, of "''c''" demo_cls "''src''" demo_world_saved]
  have a: "DeleteF ''c'' \<notin> set [WriteF ''a'' ''1'', ReadF ''b'' (Inr ''9''), WriteF ''b'' ''9'']"
    using th by (rule conjunct1)
  have "None = (None :: error option) \<longrightarrow> p_scheduledForDeletion demo_saved = [] \<and>
     DeleteF ''c'' \<notin> set (snd (snd (snd (DataStore_write demo_cls demo_saved ''src'' False
         demo_world_saved))))"
    using th by (rule conjunct2)
  then have b: "p_scheduledForDeletion demo_saved = [] \<and>
     DeleteF ''c'' \<notin> set (snd (snd (snd (DataStore_write demo_cls demo_saved ''src'' False
         demo_world_saved))))"
    by simp
  show ?thesis
    using run p a b later by (intro conjI) (erule conjunct1 conjunct2 | assumption)+
qed

lemma read_entries_lazy:
  "\<exists>d'. read_entries cls r True w fs d = (Inr d', []) \<and>
        (\<forall>k. map_of d' k = (if k \<in> set fs then Some NOT_LOADED else map_of d k))"
proof (induction fs arbitrary: d)
  case Nil
  then show ?case by simp
next
  case (Cons f fs)
  obtain d' where a: "read_entries cls r True w fs (AList.update f NOT_LOADED d) = (Inr d', [])"
    and b: "\<forall>k. map_of d' k =
      (if k \<in> set fs then Some NOT_LOADED else map_of (AList.update f NOT_LOADED d) k)"
    using Cons.IH [of "AList.update f NOT_LOADED d"] by blast
  have "\<forall>k. map_of d' k = (if k \<in> set (f # fs) then Some NOT_LOADED else map_of d k)"
    using b by (simp add: update_conv')
  then show ?case using a by simp
qed

lemma read_entries_eager:
  "read_entries cls r False w fs d = (Inr d', tr) \<Longrightarrow>
   tr = map (\<lambda>f. ReadF f (readf cls r f w)) fs \<and>
   (\<forall>k \<in> set fs. \<exists>v. readf cls r k w = Inr v \<and> map_of d' k = Some (Loaded v)) \<and>
   (\<forall>k. k \<notin> set fs \<longrightarrow> map_of d' k = map_of d k)"
proof (induction fs arbitrary: d tr)
  case Nil
  then show ?case by simp
next
  case (Cons f fs)
  from Cons.prems obtain v where rv: "readf cls r f w = Inr v"
    by (cases "readf cls r f w") auto
  obtain res tr2 where re: "read_entries cls r False w fs (AList.update f (Loaded v) d) = (res, tr2)"
    by (cases "read_entries cls r False w fs (AList.update f (Loaded v) d)") auto
  have res: "res = Inr d'" and tr: "tr = ReadF f (Inr v) # tr2"
    using Cons.prems rv re by simp_all
  note ih = Cons.IH [OF re [unfolded res]]
  have t: "tr = map (\<lambda>f. ReadF f (readf cls r f w)) (f # fs)"
    using ih tr rv by simp
  have o: "\<forall>k. k \<notin> set (f # fs) \<longrightarrow> map_of d' k = map_of d k"
    using ih by (simp add: update_conv')
  have l: "\<exists>u. readf cls r k w = Inr u \<and> map_of d' k = Some (Loaded u)" if "k \<in> set (f # fs)" for k
  proof (cases "k \<in> set fs")
    case True
    then show ?thesis using ih by blast
  next
    case False
    then have "k = f" using that by simp
    moreover have "map_of d' f = Some (Loaded v)"
      using ih False \<open>k = f\<close> by (simp add: update_conv')
    ultimately show ?thesis using rv by simp
  qed
  show ?case using t o l by blast
qed

lemma getitem_consistent_loaded:
  assumes "consistent cls r w s" "map_of (p_data s) a = Some (Loaded v)"
  shows "getitem cls s a w = (readf cls r a w, s, [])"
  using assms by (simp add: getitem_def consistent_def)

lemma getitem_consistent_not_loaded:
  assumes "consistent cls r w s" "map_of (p_data s) a = Some NOT_LOADED"
  shows "\<exists>v. readf cls r a w = Inr v \<and>
     getitem cls s a w =
       (Inr v, s\<lparr>p_data := AList.update a (Loaded v) (p_data s)\<rparr>, [ReadF a (Inr v)])"
proof -
  from assms obtain v where "readf cls r a w = Inr v" unfolding consistent_def by blast
  then show ?thesis using assms by (simp add: getitem_def consistent_def)
qed

lemma consistent_update:
  assumes "consistent cls r w s" "readf cls r a w = Inr v"
  shows "consistent cls r w (s\<lparr>p_data := AList.update a (Loaded v) (p_data s)\<rparr>)"
  using assms by (simp add: consistent_def update_conv')

lemma getitems_lazy:
  assumes "consistent cls r w s" "\<forall>k \<in> set ks. map_of (p_data s) k \<noteq> None"
    "getitems cls s ks w = (rs, s', tr)"
  shows "rs = map (\<lambda>k. readf cls r k w) ks \<and>
     (\<forall>k. length (filter (is_read k) tr) =
        (if k \<in> set ks \<and> map_of (p_data s) k = Some NOT_LOADED then 1 else 0))"
  using assms
proof (induction ks arbitrary: s rs tr s')
  case Nil
  then show ?case by simp
next
  case (Cons a ks)
  obtain e where e: "map_of (p_data s) a = Some e" using Cons.prems(2) by auto
  show ?case
  proof (cases e)
    case (Loaded v)
    have g: "getitem cls s a w = (readf cls r a w, s, [])"
      using getitem_consistent_loaded [OF Cons.prems(1)] e Loaded by simp
    obtain rs2 s2 tr2 where gs: "getitems cls s ks w = (rs2, s2, tr2)"
      by (cases "getitems cls s ks w") auto
    have p: "\<forall>k \<in> set ks. map_of (p_data s) k \<noteq> None" using Cons.prems(2) by simp
    note ih = Cons.IH [OF Cons.prems(1) p gs]
    have "rs = readf cls r a w # rs2" and "tr = tr2"
      using Cons.prems(3) g gs by simp_all
    then show ?thesis using ih e Loaded by auto
  next
    case NOT_LOADED
    obtain v where rv: "readf cls r a w = Inr v" and
      g: "getitem cls s a w =
       (Inr v, s\<lparr>p_data := AList.update a (Loaded v) (p_data s)\<rparr>, [ReadF a (Inr v)])"
      using getitem_consistent_not_loaded [OF Cons.prems(1)] e NOT_LOADED by blast
    let ?s1 = "s\<lparr>p_data := AList.update a (Loaded v) (p_data s)\<rparr>"
    obtain rs2 s2 tr2 where gs: "getitems cls ?s1 ks w = (rs2, s2, tr2)"
      by (cases "getitems cls ?s1 ks w") auto
    have c1: "consistent cls r w ?s1" using consistent_update [OF Cons.prems(1) rv] .
    have p: "\<forall>k \<in> set ks. map_of (p_data ?s1) k \<noteq> None"
      using Cons.prems(2) by (simp add: update_conv')
    note ih = Cons.IH [OF c1 p gs]
    have rs: "rs = Inr v # rs2" and tr: "tr = ReadF a (Inr v) # tr2"
      using Cons.prems(3) g gs by simp_all
    have "length (filter (is_read k) tr) =
        (if k \<in> set (a # ks) \<and> map_of (p_data s) k = Some NOT_LOADED then 1 else 0)" for k
    proof (cases "k = a")
      case True
      then show ?thesis using ih tr e NOT_LOADED by (simp add: update_conv')
    next
      case False
      then show ?thesis using ih tr by (simp add: update_conv')
    qed
    then show ?thesis using ih rs rv by simp
  qed
qed

lemma getitems_eager:
  assumes "\<forall>k \<in> set ks. \<exists>v. readf cls r k w = Inr v \<and> map_of (p_data s) k = Some (Loaded v)"
  shows "getitems cls s ks w = (map (\<lambda>k. readf cls r k w) ks, s, [])"
  using assms
proof (induction ks)
  case Nil
  then show ?case by simp
next
  case (Cons a ks)
  then obtain v where "readf cls r a w = Inr v" "map_of (p_data s) a = Some (Loaded v)"
    by auto
  then have "getitem cls s a w = (readf cls r a w, s, [])"
    by (simp add: getitem_def)
  then show ?case using Cons by simp
qed

text \<open>
  Claim C4. Let the listing of the backing container be \<open>fs\<close> and let the eager read
  (\<open>lazy = False\<close>) succeed. Then the lazy read succeeds without calling \<open>readf\<close>, and for
  every sequence \<open>ks\<close> of listed keys, accessed in the same state of the container: the
  lazy store yields the payloads \<open>readf\<close> gives, the same as the eager store; the lazy
  store calls \<open>readf\<close> exactly once for each key of \<open>ks\<close>, however often the key is
  accessed, and for no other key; the eager store calls nothing on access, having called
  \<open>readf\<close> once per listed name when it was read.
\<close>

theorem lazy_equivalence:
  assumes "listdir cls r w = Inr fs"
    and "DataStore_read cls r False w = (Inr se, te)"
    and "set ks \<subseteq> set fs"
  shows "\<exists>sl. DataStore_read cls r True w = (Inr sl, [])
      \<and> fst (getitems cls sl ks w) = map (\<lambda>k. readf cls r k w) ks
      \<and> getitems cls se ks w = (map (\<lambda>k. readf cls r k w) ks, se, [])
      \<and> (\<forall>k \<in> set ks. \<exists>v. readf cls r k w = Inr v)
      \<and> (\<forall>k. length (filter (is_read k) (snd (snd (getitems cls sl ks w)))) =
               (if k \<in> set ks then 1 else 0))
      \<and> te = map (\<lambda>f. ReadF f (readf cls r f w)) fs"
proof -
  obtain de where de: "read_entries cls r False w fs [] = (Inr de, te)"
    and se: "se = \<lparr>p_data = de, p_scheduledForDeletion = [], reader = None\<rparr>"
    using assms(1,2)
    by (auto simp: DataStore_read_def split: prod.splits sum.splits)
  note eager = read_entries_eager [OF de]
  have ev: "\<forall>k \<in> set fs. \<exists>v. readf cls r k w = Inr v \<and> map_of de k = Some (Loaded v)"
    using eager by blast
  obtain dl where dl: "read_entries cls r True w fs [] = (Inr dl, [])"
    and dlm: "\<forall>k. map_of dl k = (if k \<in> set fs then Some NOT_LOADED else map_of [] k)"
    using read_entries_lazy [of cls r w fs "[]"] by blast
  define sl where "sl = \<lparr>p_data = dl, p_scheduledForDeletion = [], reader = Some r\<rparr>"
  have rl: "DataStore_read cls r True w = (Inr sl, [])"
    using assms(1) dl by (simp add: DataStore_read_def sl_def)
  have cons: "consistent cls r w sl"
    using dlm ev by (auto simp: consistent_def sl_def split: if_splits)
  have pres: "\<forall>k \<in> set ks. map_of (p_data sl) k \<noteq> None"
    using dlm assms(3) by (auto simp: sl_def)
  have nl: "map_of (p_data sl) k = Some NOT_LOADED" if "k \<in> set ks" for k
    using dlm assms(3) that by (auto simp: sl_def)
  obtain rs s1 tr where g: "getitems cls sl ks w = (rs, s1, tr)"
    by (cases "getitems cls sl ks w") auto
  note lz = getitems_lazy [OF cons pres g]
  have a: "fst (getitems cls sl ks w) = map (\<lambda>k. readf cls r k w) ks"
    using lz g by simp
  have b: "\<forall>k. length (filter (is_read k) (snd (snd (getitems cls sl ks w)))) =
               (if k \<in> set ks then 1 else 0)"
    using lz g nl by auto
  have c: "getitems cls se ks w = (map (\<lambda>k. readf cls r k w) ks, se, [])"
  proof (rule getitems_eager)
    show "\<forall>k \<in> set ks. \<exists>v. readf cls r k w = Inr v \<and> map_of (p_data se) k = Some (Loaded v)"
      using ev assms(3) se by auto
  qed
  have d: "\<forall>k \<in> set ks. \<exists>v. readf cls r k w = Inr v"
    using ev assms(3) by blast
  have e: "te = map (\<lambda>f. ReadF f (readf cls r f w)) fs"
    using eager by blast
  show ?thesis using rl a b c d e by blast
qed

theorem lazy_equivalence_witness:
  "listdir demo_cls ''src'' demo_world = Inr [''a'', ''b'', ''c'']
   \<and> DataStore_read demo_cls ''src'' False demo_world =
       (Inr demo_eager, [ReadF ''a'' (Inr ''1''), ReadF ''b'' (Inr ''9''), ReadF ''c'' (Inr ''3'')])
   \<and> set [''b'', ''a'', ''b''] \<subseteq> set [''a'', ''b'', ''c'']
   \<and> DataStore_read demo_cls ''src'' True demo_world = (Inr demo_lazy, [])
   \<and> getitems demo_cls demo_lazy [''b'', ''a'', ''b''] demo_world =
       ([Inr ''9'', Inr ''1'', Inr ''9''],
        \<lparr>p_data = [(''a'', Loaded ''1''), (''b'', Loaded ''9''), (''c'', NOT_LOADED)],
          p_scheduledForDeletion = [], reader = Some ''src''\<rparr>,
        [ReadF ''b'' (Inr ''9''), ReadF ''a'' (Inr ''1'')])
   \<and> getitems demo_cls demo_eager [''b'', ''a'', ''b''] demo_world =
       ([Inr ''9'', Inr ''1'', Inr ''9''], demo_eager, [])
   \<and> length (filter (is_read ''b'')
        (snd (snd (getitems demo_cls demo_lazy [''b'', ''a'', ''b''] demo_world)))) = 1"
proof -
  have l: "listdir demo_cls ''src'' demo_world = Inr [''a'', ''b'', ''c'']"
    by (simp add: demo_cls_def demo_world_def)
  have e: "DataStore_read demo_cls ''src'' False demo_world =
       (Inr demo_eager, [ReadF ''a'' (Inr ''1''), ReadF ''b'' (Inr ''9''), ReadF ''c'' (Inr ''3'')])"
    by (simp add: DataStore_read_def demo_cls_def demo_world_def demo_eager_def container_def)
  have k: "set [''b'', ''a'', ''b''] \<subseteq> set [''a'', ''b'', ''c'']" by simp
  have z: "DataStore_read demo_cls ''src'' True demo_world = (Inr demo_lazy, [])"
    by (simp add: DataStore_read_def demo_cls_def demo_world_def demo_lazy_def)
  have gl: "getitems demo_cls demo_lazy [''b'', ''a'', ''b''] demo_world =
       ([Inr ''9'', Inr ''1'', Inr ''9''],
        \<lparr>p_data = [(''a'', Loaded ''1''), (''b'', Loaded ''9''), (''c'', NOT_LOADED)],
          p_scheduledForDeletion = [], reader = Some ''src''\<rparr>,
        [ReadF ''b'' (Inr ''9''), ReadF ''a'' (Inr ''1'')])"
    by (simp add: getitem_def demo_cls_def demo_world_def demo_lazy_def container_def)
  have ge: "getitems demo_cls demo_eager [''b'', ''a'', ''b''] demo_world =
       ([Inr ''9'', Inr ''1'', Inr ''9''], demo_eager, [])"
    by (simp add: getitem_def demo_eager_def)
  obtain sl where sl: "DataStore_read demo_cls ''src'' True demo_world = (Inr sl, [])"
    and n: "\<forall>k. length (filter (is_read k)
        (snd (snd (getitems demo_cls sl [''b'', ''a'', ''b''] demo_world)))) =
               (if k \<in> set [''b'', ''a'', ''b''] then 1 else 0)"
    using lazy_equivalence [OF l e k] by (elim exE conjE)
  have "sl = demo_lazy" using sl z by simp
  then have "length (filter (is_read ''b'')
        (snd (snd (getitems demo_cls demo_lazy [''b'', ''a'', ''b''] demo_world)))) =
               (if ''b'' \<in> set [''b'', ''a'', ''b''] then 1 else 0)"
    using n by (elim allE [where x = "''b''"]) simp
  then have c: "length (filter (is_read ''b'')
        (snd (snd (getitems demo_cls demo_lazy [''b'', ''a'', ''b''] demo_world)))) = 1"
    by simp
  show ?thesis
    using l e k z gl ge c by (intro conjI) assumption+
qed
section \<open>Properties of Glyph\<close>

lemma nth0_hd: "xs \<noteq> [] \<Longrightarrow> xs ! 0 = hd xs"
  by (cases xs) simp_all

lemma count_list_remove1: "count_list (remove1 v xs) v = count_list xs v - 1"
  by (induction xs) auto

lemma set_unicode_count:
  "count_list (unicodes (set_unicode (Some v) g)) v = max 1 (count_list (unicodes g) v)"
proof (cases "unicodes g")
  case Nil
  then show ?thesis by (simp add: set_unicode_def)
next
  case (Cons u us)
  then show ?thesis
    by (cases "u = v") (simp_all add: set_unicode_def count_list_remove1)
qed

text \<open>
  Claim C5, as amended. The getter returns the first element of \<open>unicodes\<close>, or \<open>None\<close> for the empty
  list. Setting \<open>None\<close> empties the list. Setting a value \<open>v\<close>: on the empty list the result
  is \<open>[v]\<close>; when \<open>v\<close> is already first nothing changes; otherwise the existing occurrence of
  \<open>v\<close> is removed (\<^verbatim>\<open>list.remove\<close>, the first one) and \<open>v\<close> is put at the front. Afterwards
  the getter returns \<open>v\<close>; \<open>v\<close> occurs as often as before, and once if it did not occur
  (a duplicate of \<open>v\<close> further down a list that had several stays); and a list without
  duplicates stays so, with the same elements and \<open>v\<close>. With \<open>[3, 5, 7]\<close>, setting 5 gives \<open>[5, 3, 7]\<close> and setting \<open>None\<close> gives \<open>[]\<close>.
\<close>

theorem unicode_primacy:
  "unicode g = (case unicodes g of [] \<Rightarrow> None | u # us \<Rightarrow> Some u)
   \<and> unicodes (set_unicode None g) = []
   \<and> (unicodes g = [] \<longrightarrow> unicodes (set_unicode (Some v) g) = [v])
   \<and> (unicodes g \<noteq> [] \<and> hd (unicodes g) = v \<longrightarrow> set_unicode (Some v) g = g)
   \<and> (unicodes g \<noteq> [] \<and> hd (unicodes g) \<noteq> v \<longrightarrow>
        unicodes (set_unicode (Some v) g) = v # remove1 v (unicodes g))
   \<and> unicode (set_unicode (Some v) g) = Some v
   \<and> count_list (unicodes (set_unicode (Some v) g)) v = max 1 (count_list (unicodes g) v)
   \<and> (distinct (unicodes g) \<longrightarrow>
        distinct (unicodes (set_unicode (Some v) g)) \<and>
        set (unicodes (set_unicode (Some v) g)) = insert v (set (unicodes g)))
   \<and> (unicodes g = [3, 5, 7] \<longrightarrow>
        unicodes (set_unicode (Some 5) g) = [5, 3, 7] \<and> unicodes (set_unicode None g) = [])"
proof (intro conjI impI)
  show "unicode g = (case unicodes g of [] \<Rightarrow> None | u # us \<Rightarrow> Some u)"
    by (cases "unicodes g") (simp_all add: unicode_def)
  show "unicodes (set_unicode None g) = []"
    by (simp add: set_unicode_def)
  show "unicodes (set_unicode (Some v) g) = [v]" if "unicodes g = []"
    using that by (simp add: set_unicode_def)
  show "set_unicode (Some v) g = g" if "unicodes g \<noteq> [] \<and> hd (unicodes g) = v"
    using that by (simp add: set_unicode_def nth0_hd)
  show "unicodes (set_unicode (Some v) g) = v # remove1 v (unicodes g)"
    if "unicodes g \<noteq> [] \<and> hd (unicodes g) \<noteq> v"
    using that by (simp add: set_unicode_def nth0_hd)
  show "unicode (set_unicode (Some v) g) = Some v"
    by (cases "unicodes g") (simp_all add: set_unicode_def unicode_def)
  show "count_list (unicodes (set_unicode (Some v) g)) v = max 1 (count_list (unicodes g) v)"
    by (rule set_unicode_count)
  show "distinct (unicodes (set_unicode (Some v) g))" if "distinct (unicodes g)"
    using that by (cases "unicodes g") (auto simp: set_unicode_def)
  show "set (unicodes (set_unicode (Some v) g)) = insert v (set (unicodes g))"
    if "distinct (unicodes g)"
    using that by (cases "unicodes g") (auto simp: set_unicode_def)
  show "unicodes (set_unicode (Some 5) g) = [5, 3, 7]" if "unicodes g = [3, 5, 7]"
    using that by (simp add: set_unicode_def)
  show "unicodes (set_unicode None g) = []" if "unicodes g = [3, 5, 7]"
    by (simp add: set_unicode_def)
qed

theorem unicode_primacy_witness:
  "unicodes demo_glyph = [3, 5, 7]
   \<and> unicode demo_glyph = Some 3
   \<and> unicodes (set_unicode (Some 5) demo_glyph) = [5, 3, 7]
   \<and> unicodes (set_unicode None demo_glyph) = []
   \<and> set_unicode (Some 3) demo_glyph = demo_glyph
   \<and> unicodes (set_unicode (Some 9) demo_glyph) = [9, 3, 5, 7]
   \<and> unicodes (set_unicode (Some 4) (set_unicode None demo_glyph)) = [4]
   \<and> distinct (unicodes (set_unicode (Some 5) demo_glyph))"
  using unicode_primacy [of demo_glyph 5]
  by (simp add: demo_glyph_def set_unicode_def unicode_def)

text \<open>
  The claim as stated, that setting \<open>v\<close> removes any existing occurrence of \<open>v\<close>, fails on a
  list that holds \<open>v\<close> twice: from \<open>[3, 5, 5, 7]\<close>, setting 5 gives \<open>[5, 3, 5, 7]\<close>, where
  the second 5 is still there, and not \<open>[5, 3, 7]\<close>.
\<close>

theorem unicode_duplicate_counterexample:
  "unicodes demo_glyph_duplicate = [3, 5, 5, 7]
   \<and> unicodes (set_unicode (Some 5) demo_glyph_duplicate) = [5, 3, 5, 7]
   \<and> 5 \<in> set (tl (unicodes (set_unicode (Some 5) demo_glyph_duplicate)))
   \<and> unicodes (set_unicode (Some 5) demo_glyph_duplicate) \<noteq>
       5 # removeAll 5 (unicodes demo_glyph_duplicate)"
  by (simp add: demo_glyph_duplicate_def demo_glyph_def set_unicode_def)

lemma point_box_shift: "point_box (shift d p) = shift_box d (point_box p)"
  by (simp add: point_box_def shift_def shift_box_def)

lemma box_union_shift:
  "box_union (shift_box d a) (shift_box d b) = shift_box d (box_union a b)"
  by (simp add: box_union_def shift_box_def min_def max_def)

lemma boxes_union_shift:
  "boxes_union (map (shift_box d) bs) = map_option (shift_box d) (boxes_union bs)"
  by (induction bs) (simp_all add: box_union_shift split: option.splits)

lemma contour_boxes_moved:
  "map point_box (concat (map points (map (Contour_move d) cs))) =
   map (shift_box d) (map point_box (concat (map points cs)))"
  by (induction cs) (simp_all add: Contour_move_def point_box_shift)

lemma measured_moved:
  assumes "\<forall>delta c. L (Component_move delta c) = map_option (shift_box delta) (L c)"
  shows "List.map_filter L (map (Component_move d) cs) = map (shift_box d) (List.map_filter L cs)"
proof (induction cs)
  case Nil
  then show ?case by (simp add: map_filter_simps)
next
  case (Cons c cs)
  have "L (Component_move d c) = map_option (shift_box d) (L c)" using assms by blast
  then show ?case using Cons by (cases "L c") (simp_all add: map_filter_simps)
qed

lemma helper_moved:
  assumes "covariant layer"
  shows "getBounds_helper (move d g) layer = map_option (shift_box d) (getBounds_helper g layer)"
proof (cases layer)
  case None
  have "getBounds_helper (move d g) None =
      boxes_union (map point_box (concat (map points (map (Contour_move d) (contours g)))))"
    by (simp add: getBounds_helper_def move_def del: map_map)
  also have "\<dots> = boxes_union (map (shift_box d) (map point_box (concat (map points (contours g)))))"
    by (simp only: contour_boxes_moved)
  also have "\<dots> = map_option (shift_box d) (getBounds_helper g None)"
    by (simp add: boxes_union_shift getBounds_helper_def del: map_map)
  finally show ?thesis using None by simp
next
  case (Some L)
  then have "\<forall>delta c. L (Component_move delta c) = map_option (shift_box delta) (L c)"
    using assms by (simp add: covariant_def)
  then have m: "List.map_filter L (map (Component_move d) (components g)) =
      map (shift_box d) (List.map_filter L (components g))"
    by (rule measured_moved)
  have "getBounds_helper (move d g) (Some L) =
      boxes_union (map point_box (concat (map points (map (Contour_move d) (contours g)))) @
        List.map_filter L (map (Component_move d) (components g)))"
    by (simp add: getBounds_helper_def move_def del: map_map)
  also have "\<dots> = boxes_union (map (shift_box d)
        (map point_box (concat (map points (contours g))) @ List.map_filter L (components g)))"
    by (simp only: contour_boxes_moved m map_append)
  also have "\<dots> = map_option (shift_box d) (getBounds_helper g (Some L))"
    by (simp only: boxes_union_shift getBounds_helper_def option.case)
  finally show ?thesis using Some by simp
qed

lemma helper_width: "getBounds_helper (g\<lparr>width := x\<rparr>) layer = getBounds_helper g layer"
  by (cases layer) (simp_all add: getBounds_helper_def)

lemma getBounds_moved:
  assumes "covariant layer" "getBounds g layer = Inr (Some b)"
  shows "getBounds (move d (g\<lparr>width := x\<rparr>)) layer = Inr (Some (shift_box d b))"
proof -
  have ok: "\<not> (layer = None \<and> components g \<noteq> [])" and h: "getBounds_helper g layer = Some b"
    using assms(2) by (auto simp: getBounds_def split: if_splits)
  have "getBounds_helper (move d (g\<lparr>width := x\<rparr>)) layer = Some (shift_box d b)"
    using helper_moved [OF assms(1), of d "g\<lparr>width := x\<rparr>"] h by (simp add: helper_width)
  moreover have "\<not> (layer = None \<and> components (move d (g\<lparr>width := x\<rparr>)) \<noteq> [])"
    using ok by (simp add: move_def)
  ultimately show ?thesis by (simp add: getBounds_def)
qed

text \<open>
  Claim C6, as amended. \<^verbatim>\<open>setLeftMargin\<close> adds the difference to the advance and moves the
  outline by it, so the right edge of the bounds moves too. For a glyph whose bounds are
  \<open>xMin = 10\<close>, \<open>xMax = 90\<close> with width 100 (without a layer, or with a layer that measures
  a moved component as the moved box), \<^verbatim>\<open>setLeftMargin(20)\<close> yields \<open>xMin = 20\<close>,
  \<open>xMax = 100\<close> and width 110, and \<^verbatim>\<open>getRightMargin()\<close> is then \<open>110 - 100 = 10\<close>, what it
  was before the call.
\<close>

theorem left_margin_moves_outline:
  assumes "covariant layer"
    and "getBounds g layer = Inr (Some b)"
    and "xMin b = 10" and "xMax b = 90" and "width g = 100"
  shows "\<exists>g' b'. setLeftMargin 20 layer g = Inr g'
           \<and> getBounds g' layer = Inr (Some b')
           \<and> xMin b' = 20 \<and> xMax b' = 100 \<and> width g' = 110
           \<and> getRightMargin g' layer = Inr (Some 10)
           \<and> getRightMargin g layer = Inr (Some 10)"
proof -
  let ?g' = "move (10, 0) (g\<lparr>width := width g + 10\<rparr>)"
  let ?b' = "shift_box (10, 0) b"
  have s: "setLeftMargin 20 layer g = Inr ?g'"
    using assms(2,3) by (simp add: setLeftMargin_def)
  have gb: "getBounds ?g' layer = Inr (Some ?b')"
    using assms(1,2) by (rule getBounds_moved)
  have x: "xMin ?b' = 20" and y: "xMax ?b' = 100"
    using assms(3,4) by (simp_all add: shift_box_def)
  have w: "width ?g' = 110" using assms(5) by (simp add: move_def)
  have r: "getRightMargin ?g' layer = Inr (Some 10)"
    using gb y w by (simp add: getRightMargin_def)
  have r0: "getRightMargin g layer = Inr (Some 10)"
    using assms(2,4,5) by (simp add: getRightMargin_def)
  show ?thesis using s gb x y w r r0 by blast
qed

lemma demo_bounds:
  "getBounds demo_glyph None = Inr (Some \<lparr>xMin = 10, yMin = 0, xMax = 90, yMax = 50\<rparr>)"
  by (simp add: getBounds_def getBounds_helper_def demo_glyph_def point_box_def box_union_def)

lemma demo_moved_bounds:
  "getBounds demo_glyph_moved None = Inr (Some \<lparr>xMin = 20, yMin = 0, xMax = 100, yMax = 50\<rparr>)"
  by (simp add: getBounds_def getBounds_helper_def demo_glyph_moved_def point_box_def box_union_def)

lemma demo_setLeftMargin: "setLeftMargin 20 None demo_glyph = Inr demo_glyph_moved"
  using demo_bounds
  by (simp add: setLeftMargin_def demo_glyph_def demo_glyph_moved_def move_def
      Contour_move_def Anchor_move_def shift_def)

theorem left_margin_moves_outline_witness:
  "covariant None
   \<and> getBounds demo_glyph None = Inr (Some \<lparr>xMin = 10, yMin = 0, xMax = 90, yMax = 50\<rparr>)
   \<and> width demo_glyph = 100
   \<and> setLeftMargin 20 None demo_glyph = Inr demo_glyph_moved
   \<and> getBounds demo_glyph_moved None = Inr (Some \<lparr>xMin = 20, yMin = 0, xMax = 100, yMax = 50\<rparr>)
   \<and> width demo_glyph_moved = 110
   \<and> getRightMargin demo_glyph_moved None = Inr (Some 10)"
proof -
  have c: "covariant None" by (simp add: covariant_def)
  have w: "width demo_glyph = 100" by (simp add: demo_glyph_def)
  obtain g' where s: "setLeftMargin 20 None demo_glyph = Inr g'"
    and r: "getRightMargin g' None = Inr (Some 10)"
    using left_margin_moves_outline [OF c demo_bounds _ _ w] by auto
  have "g' = demo_glyph_moved" using s demo_setLeftMargin by simp
  then have r': "getRightMargin demo_glyph_moved None = Inr (Some 10)" using r by simp
  have w': "width demo_glyph_moved = 110" by (simp add: demo_glyph_moved_def)
  show ?thesis
    using c demo_bounds w demo_setLeftMargin demo_moved_bounds w' r'
    by (intro conjI) assumption+
qed

text \<open>
  The claim as stated fails on the example glyph: after \<^verbatim>\<open>setLeftMargin(20)\<close> the right
  margin is 10, not 20.
\<close>

theorem right_margin_counterexample:
  "getBounds demo_glyph None = Inr (Some \<lparr>xMin = 10, yMin = 0, xMax = 90, yMax = 50\<rparr>)
   \<and> width demo_glyph = 100
   \<and> setLeftMargin 20 None demo_glyph = Inr demo_glyph_moved
   \<and> getLeftMargin demo_glyph_moved None = Inr (Some 20)
   \<and> width demo_glyph_moved = 110
   \<and> getRightMargin demo_glyph_moved None = Inr (Some 10)
   \<and> getRightMargin demo_glyph_moved None \<noteq> Inr (Some 20)"
proof -
  have w: "width demo_glyph = 100" by (simp add: demo_glyph_def)
  have w': "width demo_glyph_moved = 110" by (simp add: demo_glyph_moved_def)
  have l: "getLeftMargin demo_glyph_moved None = Inr (Some 20)"
    using demo_moved_bounds by (simp add: getLeftMargin_def)
  have r: "getRightMargin demo_glyph_moved None = Inr (Some 10)"
    using demo_moved_bounds w' by (simp add: getRightMargin_def)
  have n: "getRightMargin demo_glyph_moved None \<noteq> Inr (Some 20)"
    using r by simp
  show ?thesis
    using demo_bounds w demo_setLeftMargin l w' r n by (intro conjI) assumption+
qed
section \<open>Properties of DeepComponent\<close>

text \<open>
  Claim C10, as amended. \<^verbatim>\<open>drawPoints\<close> first calls \<^verbatim>\<open>addDeepComponent\<close> with the keyword
  \<^verbatim>\<open>identifier\<close>. If that call returns, nothing else happens. If it raises \<^verbatim>\<open>TypeError\<close>,
  the method is called again without the keyword, on the pen as the first call left it:
  when the retry returns, one \<^verbatim>\<open>UserWarning\<close> is issued and \<^verbatim>\<open>drawPoints\<close> returns normally,
  the identifier discarded; when the retry raises, its exception, a \<^verbatim>\<open>TypeError\<close> included,
  reaches the caller and no warning is issued. Any other exception of the first call
  reaches the caller with no retry.
\<close>

theorem drawPoints_retry:
  "(addDeepComponent pen (with_identifier dc) = (None, pen1) \<longrightarrow>
      drawPoints addDeepComponent dc pen = (None, pen1, [], [with_identifier dc]))
   \<and> (addDeepComponent pen (with_identifier dc) = (Some TypeError, pen1) \<and>
       addDeepComponent pen1 (without_identifier dc) = (None, pen2) \<longrightarrow>
      drawPoints addDeepComponent dc pen =
        (None, pen2, [UserWarning discarded_message],
         [with_identifier dc, without_identifier dc]))
   \<and> (addDeepComponent pen (with_identifier dc) = (Some TypeError, pen1) \<and>
       addDeepComponent pen1 (without_identifier dc) = (Some e2, pen2) \<longrightarrow>
      drawPoints addDeepComponent dc pen =
        (Some e2, pen2, [], [with_identifier dc, without_identifier dc]))
   \<and> (addDeepComponent pen (with_identifier dc) = (Some e, pen1) \<and> e \<noteq> TypeError \<longrightarrow>
      drawPoints addDeepComponent dc pen = (Some e, pen1, [], [with_identifier dc]))
   \<and> kw_identifier (with_identifier dc) = Some (identifier dc)
   \<and> kw_identifier (without_identifier dc) = None"
  by (simp add: drawPoints_def with_identifier_def without_identifier_def)

theorem drawPoints_retry_witness:
  "keyword_pen [] (with_identifier demo_dc) = (None, [with_identifier demo_dc])
   \<and> drawPoints keyword_pen demo_dc [] = (None, [with_identifier demo_dc], [], [with_identifier demo_dc])
   \<and> legacy_pen [] (with_identifier demo_dc) = (Some TypeError, [])
   \<and> legacy_pen [] (without_identifier demo_dc) = (None, [without_identifier demo_dc])
   \<and> drawPoints legacy_pen demo_dc [] =
       (None, [without_identifier demo_dc], [UserWarning discarded_message],
        [with_identifier demo_dc, without_identifier demo_dc])
   \<and> kw_identifier (without_identifier demo_dc) = None"
proof -
  have a: "keyword_pen [] (with_identifier demo_dc) = (None, [with_identifier demo_dc])"
    by (simp add: keyword_pen_def)
  have b: "legacy_pen [] (with_identifier demo_dc) = (Some TypeError, [])"
    by (simp add: legacy_pen_def with_identifier_def)
  have c: "legacy_pen [] (without_identifier demo_dc) = (None, [without_identifier demo_dc])"
    by (simp add: legacy_pen_def without_identifier_def)
  have d: "drawPoints keyword_pen demo_dc [] =
      (None, [with_identifier demo_dc], [], [with_identifier demo_dc])"
    using drawPoints_retry [of keyword_pen "[]" demo_dc "[with_identifier demo_dc]"] a by simp
  have e: "drawPoints legacy_pen demo_dc [] =
       (None, [without_identifier demo_dc], [UserWarning discarded_message],
        [with_identifier demo_dc, without_identifier demo_dc])"
    using drawPoints_retry [of legacy_pen "[]" demo_dc "[]" "[without_identifier demo_dc]"] b c
    by simp
  have f: "kw_identifier (without_identifier demo_dc) = None"
    by (simp add: without_identifier_def)
  show ?thesis using a d b c e f by (intro conjI) assumption+
qed

text \<open>
  The claim as stated fails for a pen whose method raises \<^verbatim>\<open>TypeError\<close> on the retry too:
  the \<^verbatim>\<open>TypeError\<close> of the retry leaves \<^verbatim>\<open>drawPoints\<close>, and no warning is issued.
\<close>

theorem drawPoints_TypeError_counterexample:
  "failing_pen [] (with_identifier demo_dc) = (Some TypeError, [])
   \<and> drawPoints failing_pen demo_dc [] =
       (Some TypeError, [], [], [with_identifier demo_dc, without_identifier demo_dc])
   \<and> fst (drawPoints failing_pen demo_dc []) \<noteq> None"
  by (simp add: drawPoints_def failing_pen_def)
section \<open>Properties of Font\<close>

text \<open>
  Claim C8. With a \<open>formatVersion\<close> other than 3, \<^verbatim>\<open>save\<close> raises \<^verbatim>\<open>NotImplementedError\<close>
  at once: the font and the file system, the record of writer calls included, are what
  they were.
\<close>

theorem save_unsupported_formatVersion:
  "formatVersion \<noteq> 3 \<Longrightarrow>
   save env font path formatVersion structure overwrite validate w =
     (Some NotImplementedError, font, w)"
  by (simp add: save_def)

text \<open>
  Claim C7. When the default layer's name is not the reserved name and the reserved name
  is among the layer names (so a layer other than the default one bears it),
  \<^verbatim>\<open>Font.write\<close> raises \<^verbatim>\<open>AssertionError\<close>, whatever the writer and the flag, before any
  call on the writer: font and file system are unchanged.
\<close>

theorem write_rejects_reserved_layer_name:
  "defaultLayer_name (layers font) \<noteq> DEFAULT_LAYER_NAME \<Longrightarrow>
   DEFAULT_LAYER_NAME \<in> set (layerOrder (layers font)) \<Longrightarrow>
   Font_write env font writer saveAs w = (Some AssertionError, font, w)"
  by (simp add: Font_write_def)

lemma writes_only_at_refl: "writes_only_at loc w w"
  by (simp add: writes_only_at_def)

lemma writes_only_at_trans:
  assumes "writes_only_at loc a b" "writes_only_at loc b c"
  shows "writes_only_at loc a c"
proof -
  obtain n1 where n1: "wlog b = wlog a @ n1" "\<forall>x \<in> set n1. fst x = loc"
    using assms(1) unfolding writes_only_at_def by blast
  obtain n2 where n2: "wlog c = wlog b @ n2" "\<forall>x \<in> set n2. fst x = loc"
    using assms(2) unfolding writes_only_at_def by blast
  have "wlog c = wlog a @ (n1 @ n2) \<and> (\<forall>x \<in> set (n1 @ n2). fst x = loc)"
    using n1 n2 by auto
  then have "\<exists>new. wlog c = wlog a @ new \<and> (\<forall>x \<in> set new. fst x = loc)" by blast
  moreover have "\<forall>l. l \<noteq> loc \<longrightarrow> entries c l = entries a l"
    using assms unfolding writes_only_at_def by simp
  moreover have "tmpdir c = tmpdir a"
    using assms unfolding writes_only_at_def by simp
  ultimately show ?thesis unfolding writes_only_at_def by simp
qed

lemma writer_do_only_at:
  "writer_do env loc c w = (e, w') \<Longrightarrow> writes_only_at loc w w'"
  by (auto simp: writer_do_def writes_only_at_def split: prod.splits)

lemma LayerSet_write_only_at:
  "LayerSet_write env ls loc saveAs w = (e, ls', w') \<Longrightarrow> writes_only_at loc w w'"
  by (auto simp: LayerSet_write_def writes_only_at_def split: prod.splits)

lemma writer_seq_only_at:
  "writer_seq env loc cs w = (e, w') \<Longrightarrow> writes_only_at loc w w'"
proof (induction cs arbitrary: w)
  case Nil
  then show ?case by (simp add: writes_only_at_refl)
next
  case (Cons c cs)
  obtain e1 w1 where d: "writer_do env loc c w = (e1, w1)"
    by (cases "writer_do env loc c w") auto
  note s1 = writer_do_only_at [OF d]
  show ?case
  proof (cases e1)
    case (Some x)
    then show ?thesis using Cons.prems d s1 by simp
  next
    case None
    then have "writer_seq env loc cs w1 = (e, w')" using Cons.prems d by simp
    then have "writes_only_at loc w1 w'" by (rule Cons.IH)
    then show ?thesis using s1 by (rule writes_only_at_trans [rotated])
  qed
qed

text \<open>The loops of \<open>DataStore_write\<close> keep every relation that each adapter call keeps.\<close>

lemma delete_scheduled_rel:
  assumes refl: "\<And>w. R w w" and trans: "\<And>a b c. R a b \<Longrightarrow> R b c \<Longrightarrow> R a c"
    and step: "\<And>f w e w'. deletef cls wr f w = (e, w') \<Longrightarrow> R w w'"
  shows "delete_scheduled cls wr fs w = (r, w', tr) \<Longrightarrow> R w w'"
proof (induction fs arbitrary: w r tr w')
  case Nil
  then show ?case using refl by simp
next
  case (Cons f fs)
  obtain e w1 where d: "deletef cls wr f w = (e, w1)"
    by (cases "deletef cls wr f w") auto
  note s1 = step [OF d]
  show ?case
  proof (cases e)
    case (Some x)
    then show ?thesis using Cons.prems d s1 by simp
  next
    case None
    obtain r2 w2 tr2 where ds: "delete_scheduled cls wr fs w1 = (r2, w2, tr2)"
      by (cases "delete_scheduled cls wr fs w1") auto
    have "w' = w2" using Cons.prems d None ds by simp
    then show ?thesis using trans [OF s1 Cons.IH [OF ds]] by simp
  qed
qed

lemma write_items_rel:
  assumes refl: "\<And>w. R w w" and trans: "\<And>a b c. R a b \<Longrightarrow> R b c \<Longrightarrow> R a c"
    and step: "\<And>f v w e w'. writef cls wr f v w = (e, w') \<Longrightarrow> R w w'"
  shows "write_items cls wr fs s w = (r, s', w', tr) \<Longrightarrow> R w w'"
proof (induction fs arbitrary: s w r tr s' w')
  case Nil
  then show ?case using refl by simp
next
  case (Cons f fs)
  obtain g s1 tr1 where g: "getitem cls s f w = (g, s1, tr1)"
    by (cases "getitem cls s f w") auto
  show ?case
  proof (cases g)
    case (Inl e)
    then show ?thesis using Cons.prems g refl by simp
  next
    case (Inr v)
    obtain e w1 where wf: "writef cls wr f v w = (e, w1)"
      by (cases "writef cls wr f v w") auto
    note s1 = step [OF wf]
    show ?thesis
    proof (cases e)
      case (Some x)
      then show ?thesis using Cons.prems g Inr wf s1 by simp
    next
      case None
      obtain r2 s2 w2 tr2 where wi: "write_items cls wr fs s1 w1 = (r2, s2, w2, tr2)"
        by (cases "write_items cls wr fs s1 w1") auto
      have "w' = w2" using Cons.prems g Inr wf None wi by simp
      then show ?thesis using trans [OF s1 Cons.IH [OF wi]] by simp
    qed
  qed
qed

lemma DataStore_write_rel:
  assumes refl: "\<And>w. R w w" and trans: "\<And>a b c. R a b \<Longrightarrow> R b c \<Longrightarrow> R a c"
    and wstep: "\<And>f v w e w'. writef cls wr f v w = (e, w') \<Longrightarrow> R w w'"
    and dstep: "\<And>f w e w'. deletef cls wr f w = (e, w') \<Longrightarrow> R w w'"
    and run: "DataStore_write cls s wr saveAs w = (r, s', w', tr)"
  shows "R w w'"
proof -
  obtain r1 w1 tr1 where d:
    "(if \<not> saveAs then delete_scheduled cls wr (p_scheduledForDeletion s) w else (None, w, []))
       = (r1, w1, tr1)"
    by (cases "if \<not> saveAs then delete_scheduled cls wr (p_scheduledForDeletion s) w
               else (None, w, [])") auto
  have a: "R w w1"
  proof (cases saveAs)
    case True
    then show ?thesis using d refl by simp
  next
    case False
    then have "delete_scheduled cls wr (p_scheduledForDeletion s) w = (r1, w1, tr1)"
      using d by simp
    then show ?thesis using delete_scheduled_rel [of R cls wr] refl trans dstep by blast
  qed
  show ?thesis
  proof (cases r1)
    case (Some e)
    then have "w' = w1" using run d by (simp add: DataStore_write_def)
    then show ?thesis using a by simp
  next
    case None
    obtain r2 s2 w2 tr2 where wi:
      "write_items cls wr (map fst (p_data s)) s w1 = (r2, s2, w2, tr2)"
      by (cases "write_items cls wr (map fst (p_data s)) s w1") auto
    have "w' = w2" using run d None wi by (cases r2) (simp_all add: DataStore_write_def)
    moreover have "R w1 w2" using write_items_rel [of R cls wr] refl trans wstep wi by blast
    ultimately show ?thesis using trans [OF a] by simp
  qed
qed

lemma DataSet_write_only_at:
  assumes "DataStore_write (DataSet env) s loc saveAs w = (r, s', w', tr)"
  shows "writes_only_at loc w w'"
proof (rule DataStore_write_rel [where R = "writes_only_at loc", OF _ _ _ _ assms])
  show "\<And>w. writes_only_at loc w w" by (rule writes_only_at_refl)
  show "\<And>a b c. writes_only_at loc a b \<Longrightarrow> writes_only_at loc b c \<Longrightarrow> writes_only_at loc a c"
    by (rule writes_only_at_trans)
  show "\<And>f v w e w'. writef (DataSet env) loc f v w = (e, w') \<Longrightarrow> writes_only_at loc w w'"
    by (simp add: DataSet_def writer_do_only_at)
  show "\<And>f w e w'. deletef (DataSet env) loc f w = (e, w') \<Longrightarrow> writes_only_at loc w w'"
    by (simp add: DataSet_def writer_do_only_at)
qed

lemma ImageSet_write_only_at:
  assumes "DataStore_write (ImageSet env) s loc saveAs w = (r, s', w', tr)"
  shows "writes_only_at loc w w'"
proof (rule DataStore_write_rel [where R = "writes_only_at loc", OF _ _ _ _ assms])
  show "\<And>w. writes_only_at loc w w" by (rule writes_only_at_refl)
  show "\<And>a b c. writes_only_at loc a b \<Longrightarrow> writes_only_at loc b c \<Longrightarrow> writes_only_at loc a c"
    by (rule writes_only_at_trans)
  show "\<And>f v w e w'. writef (ImageSet env) loc f v w = (e, w') \<Longrightarrow> writes_only_at loc w w'"
    by (simp add: ImageSet_def writer_do_only_at)
  show "\<And>f w e w'. deletef (ImageSet env) loc f w = (e, w') \<Longrightarrow> writes_only_at loc w w'"
    by (simp add: ImageSet_def writer_do_only_at)
qed

lemma Font_write_only_at:
  assumes "Font_write env font loc saveAs w = (r, font', w')"
  shows "writes_only_at loc w w'"
proof (cases "defaultLayer_name (layers font) \<noteq> DEFAULT_LAYER_NAME \<and>
         \<not> (DEFAULT_LAYER_NAME \<notin> set (layerOrder (layers font)))")
  case True
  then have "w' = w" using assms by (simp add: Font_write_def del: writer_seq.simps)
  then show ?thesis by (simp add: writes_only_at_refl)
next
  case False
  then have fw: "Font_write env font loc saveAs w =
        (case writer_seq env loc
                [WriteFeatures (features font), WriteGroups (groups font),
                 WriteInfo (info font), WriteKerning (kerning font), WriteLib (lib font)] w of
           (Some e, w1) \<Rightarrow> (Some e, font, w1)
         | (None, w1) \<Rightarrow>
             (case LayerSet_write env (layers font) loc saveAs w1 of
                (Some e, ls, w2) \<Rightarrow> (Some e, font\<lparr>layers := ls\<rparr>, w2)
              | (None, ls, w2) \<Rightarrow>
                  (case DataStore_write (DataSet env) (data font) loc saveAs w2 of
                     (Some e, d, w3, tr) \<Rightarrow> (Some e, font\<lparr>layers := ls, data := d\<rparr>, w3)
                   | (None, d, w3, tr) \<Rightarrow>
                       (case DataStore_write (ImageSet env) (images font) loc saveAs w3 of
                          (e, i, w4, tr') \<Rightarrow>
                            (e, font\<lparr>layers := ls, data := d, images := i\<rparr>, w4)))))"
    unfolding Font_write_def by (rule if_not_P)
  note run = assms [unfolded fw]
  obtain e1 w1 where a: "writer_seq env loc
                [WriteFeatures (features font), WriteGroups (groups font),
                 WriteInfo (info font), WriteKerning (kerning font), WriteLib (lib font)] w
                = (e1, w1)"
    by (cases "writer_seq env loc
                [WriteFeatures (features font), WriteGroups (groups font),
                 WriteInfo (info font), WriteKerning (kerning font), WriteLib (lib font)] w") auto
  note r1 = writer_seq_only_at [OF a]
  show ?thesis
  proof (cases e1)
    case (Some e)
    then have "w' = w1" using run a by (simp del: writer_seq.simps)
    then show ?thesis using r1 by simp
  next
    case None
    obtain e2 ls w2 where b: "LayerSet_write env (layers font) loc saveAs w1 = (e2, ls, w2)"
      by (cases "LayerSet_write env (layers font) loc saveAs w1") auto
    note r2 = writes_only_at_trans [OF r1 LayerSet_write_only_at [OF b]]
    show ?thesis
    proof (cases e2)
      case (Some e)
      then have "w' = w2" using run a None b by (simp del: writer_seq.simps)
      then show ?thesis using r2 by simp
    next
      case n2: None
      obtain e3 d w3 tr3 where c:
        "DataStore_write (DataSet env) (data font) loc saveAs w2 = (e3, d, w3, tr3)"
        by (cases "DataStore_write (DataSet env) (data font) loc saveAs w2") auto
      note r3 = writes_only_at_trans [OF r2 DataSet_write_only_at [OF c]]
      show ?thesis
      proof (cases e3)
        case (Some e)
        then have "w' = w3" using run a None b n2 c by (simp del: writer_seq.simps)
        then show ?thesis using r3 by simp
      next
        case n3: None
        obtain e4 i w4 tr4 where d:
          "DataStore_write (ImageSet env) (images font) loc saveAs w3 = (e4, i, w4, tr4)"
          by (cases "DataStore_write (ImageSet env) (images font) loc saveAs w3") auto
        have "w' = w4" using run a None b n2 c n3 d by (simp del: writer_seq.simps)
        then show ?thesis
          using writes_only_at_trans [OF r3 ImageSet_write_only_at [OF d]] by simp
      qed
    qed
  qed
qed

lemma save_try_only_at:
  assumes "save_try env font loc st validate saveAs w = (r, font', w')"
  shows "writes_only_at loc w w'"
proof -
  obtain e1 w1 where a: "writer_do env loc (Open st validate) w = (e1, w1)"
    by (cases "writer_do env loc (Open st validate) w") auto
  note r1 = writer_do_only_at [OF a]
  show ?thesis
  proof (cases e1)
    case (Some e)
    then have "w' = w1" using assms a by (simp add: save_try_def)
    then show ?thesis using r1 by simp
  next
    case None
    obtain e2 font2 w2 where b: "Font_write env font loc saveAs w1 = (e2, font2, w2)"
      by (cases "Font_write env font loc saveAs w1") auto
    note r2 = writes_only_at_trans [OF r1 Font_write_only_at [OF b]]
    obtain e3 w3 where c: "writer_do env loc Close w2 = (e3, w3)"
      by (cases "writer_do env loc Close w2") auto
    note r3 = writes_only_at_trans [OF r2 writer_do_only_at [OF c]]
    obtain e4 w4 where d: "writer_do env loc SetModificationTime w3 = (e4, w4)"
      by (cases "writer_do env loc SetModificationTime w3") auto
    note r4 = writes_only_at_trans [OF r3 writer_do_only_at [OF d]]
    have "w' = w3 \<or> w' = w4"
      using assms a None b c d by (cases e2; cases e3) (simp_all add: save_try_def)
    then show ?thesis using r3 r4 by auto
  qed
qed

lemma replace_existing_frame:
  assumes "replace_existing env s p w = (e, w')"
  shows "wlog w' = wlog w \<and> tmpdir w' = tmpdir w \<and>
         (\<forall>l. l \<noteq> s \<and> l \<noteq> Path p \<longrightarrow> entries w' l = entries w l)"
proof -
  define rm where "rm =
     (case entries w (Path p) of
              None \<Rightarrow> (None, w)
            | Some n \<Rightarrow>
                if isdir env n
                then (case rmtree env n of
                        (e, n') \<Rightarrow> (e, w\<lparr>entries := (entries w)(Path p := n')\<rparr>))
                else if isfile env n
                then (case remove env n of
                        (e, n') \<Rightarrow> (e, w\<lparr>entries := (entries w)(Path p := n')\<rparr>))
                else (None, w))"
  obtain e1 w1 where r: "rm = (e1, w1)" by (cases rm) auto
  have f1: "wlog w1 = wlog w \<and> tmpdir w1 = tmpdir w \<and>
         (\<forall>l. l \<noteq> Path p \<longrightarrow> entries w1 l = entries w l)"
    using r unfolding rm_def by (auto split: option.splits if_splits prod.splits)
  have run: "(case rm of
        (Some e, w1) \<Rightarrow> (Some e, w1)
      | (None, w1) \<Rightarrow>
          (case shutil_move env (entries w1 s) (entries w1 (Path p)) of
             (e, src, dst) \<Rightarrow>
               (e, w1\<lparr>entries := (entries w1)(s := src, Path p := dst)\<rparr>))) = (e, w')"
    using assms unfolding replace_existing_def rm_def .
  show ?thesis
  proof (cases e1)
    case (Some x)
    then have "w' = w1" using run r by simp
    then show ?thesis using f1 by simp
  next
    case None
    obtain e2 src dst where m: "shutil_move env (entries w1 s) (entries w1 (Path p)) = (e2, src, dst)"
      by (cases "shutil_move env (entries w1 s) (entries w1 (Path p))") auto
    have "w' = w1\<lparr>entries := (entries w1)(s := src, Path p := dst)\<rparr>"
      using run r None m by simp
    then show ?thesis using f1 by simp
  qed
qed

lemma TempFS_close_effect:
  "\<not> tmpdir (TempFS_close w) \<and> (\<forall>n. entries (TempFS_close w) (Staged n) = None) \<and>
   wlog (TempFS_close w) = wlog w \<and>
   (\<forall>l. \<not> is_staged l \<longrightarrow> entries (TempFS_close w) l = entries w l)"
  by (simp add: TempFS_close_def)

lemma TempFS_create_effect:
  "wlog (TempFS_create w) = wlog w \<and>
   (\<forall>l. \<not> is_staged l \<longrightarrow> entries (TempFS_create w) l = entries w l)"
  by (simp add: TempFS_create_def)

lemma save_staged_unfold:
  assumes "entries w (Path (normpath env p)) \<noteq> None"
    and "resolve_structure structure font = Inr st"
  shows "save env font (StrPath p) 3 structure True validate w =
     (case save_try env font (Staged (basename env (normpath env p))) st validate True
               (TempFS_create w) of
        (Some e, font1, w1) \<Rightarrow> (Some e, font1, TempFS_close w1)
      | (None, font1, w1) \<Rightarrow>
          (case replace_existing env (Staged (basename env (normpath env p))) (normpath env p) w1 of
             (Some e, w2) \<Rightarrow> (Some e, font1, TempFS_close w2)
           | (None, w2) \<Rightarrow>
               (None, font1\<lparr>p_path := StrPath (normpath env p)\<rparr>, TempFS_close w2)))"
  using assms by (simp add: save_def)

lemma save_early_exit:
  assumes "formatVersion \<noteq> 3 \<or> (\<exists>e. resolve_structure structure font = Inl e)"
    and "save env font path formatVersion structure overwrite validate w = (res, font', w')"
  shows "w' = w \<and> font' = font \<and> res \<noteq> None"
proof (cases "formatVersion = 3")
  case False
  then show ?thesis using assms(2) by (auto simp: save_def)
next
  case True
  then obtain e where "resolve_structure structure font = Inl e" using assms(1) by blast
  then show ?thesis using assms(2) True by (auto simp: save_def)
qed

text \<open>
  Claim C1. Let \<^verbatim>\<open>save(path, overwrite=True)\<close> be called with a path string whose
  normalised form names an existing entry, while no staging directory exists. Then,
  whatever the outcome:
  every call this \<^verbatim>\<open>save\<close> makes on a writer is made on a writer bound to the staged
  location \<^verbatim>\<open>tmp.getsyspath(basename(path))\<close>;
  on exit the temporary directory does not exist and nothing is staged;
  no entry other than the destination differs from before;
  if the write step (constructing the writer, \<^verbatim>\<open>Font.write\<close>, closing the writer, stamping
  the modification time) raises, that exception leaves \<^verbatim>\<open>save\<close> and every entry, the
  destination included, is what it was before the call;
  the destination differs from before only if the write step returned normally;
  and when \<^verbatim>\<open>save\<close> returns normally the font remembers the destination as its path.
\<close>

theorem save_overwrite_is_staged:
  assumes ex: "entries w (Path (normpath env p)) \<noteq> None"
    and nt: "\<not> tmpdir w" and ns: "\<forall>n. entries w (Staged n) = None"
    and run: "save env font (StrPath p) formatVersion structure True validate w = (res, font', w')"
  shows "(\<exists>new. wlog w' = wlog w @ new \<and>
              (\<forall>x \<in> set new. fst x = Staged (basename env (normpath env p))))
     \<and> \<not> tmpdir w' \<and> (\<forall>n. entries w' (Staged n) = None)
     \<and> (\<forall>l. l \<noteq> Path (normpath env p) \<longrightarrow> entries w' l = entries w l)
     \<and> (formatVersion = 3 \<and> resolve_structure structure font = Inr st \<and>
         save_try env font (Staged (basename env (normpath env p))) st validate True
           (TempFS_create w) = (Some e, font1, w1)
        \<longrightarrow> res = Some e \<and> entries w' = entries w)
     \<and> (entries w' (Path (normpath env p)) \<noteq> entries w (Path (normpath env p)) \<longrightarrow>
         formatVersion = 3 \<and>
         (\<exists>st2 font2 w2. resolve_structure structure font = Inr st2 \<and>
            save_try env font (Staged (basename env (normpath env p))) st2 validate True
              (TempFS_create w) = (None, font2, w2)))
     \<and> (res = None \<longrightarrow> p_path font' = StrPath (normpath env p))"
proof (cases "formatVersion \<noteq> 3 \<or> (\<exists>e. resolve_structure structure font = Inl e)")
  case True
  have same: "w' = w \<and> font' = font \<and> res \<noteq> None"
    using True run by (rule save_early_exit)
  have a: "\<exists>new. wlog w' = wlog w @ new \<and>
              (\<forall>x \<in> set new. fst x = Staged (basename env (normpath env p)))"
    using same by simp
  show ?thesis using a same nt ns True by auto
next
  case False
  then have fv: "formatVersion = 3" by simp
  obtain s0 where s0: "resolve_structure structure font = Inr s0"
    using False by (cases "resolve_structure structure font") auto
  let ?b = "Staged (basename env (normpath env p))"
  let ?np = "normpath env p"
  obtain r1 f1 v1 where t: "save_try env font ?b s0 validate True (TempFS_create w) = (r1, f1, v1)"
    by (cases "save_try env font ?b s0 validate True (TempFS_create w)") auto
  note unf = save_staged_unfold [OF ex s0, of validate]
  have fr: "writes_only_at ?b (TempFS_create w) v1" using t by (rule save_try_only_at)
  obtain new where lg: "wlog v1 = wlog w @ new" and at: "\<forall>x \<in> set new. fst x = ?b"
    using fr TempFS_create_effect [of w] unfolding writes_only_at_def by auto
  have ent1: "entries v1 l = entries w l" if "\<not> is_staged l" for l
  proof -
    have "l \<noteq> ?b" using that by auto
    then have "entries v1 l = entries (TempFS_create w) l"
      using fr unfolding writes_only_at_def by simp
    then show ?thesis using that TempFS_create_effect [of w] by simp
  qed
  show ?thesis
  proof (cases r1)
    case (Some x)
    have res: "res = Some x" and w': "w' = TempFS_close v1"
      using run fv unf t Some by simp_all
    have e1: "entries w' l = entries w l" for l
    proof (cases "is_staged l")
      case True
      then obtain n where "l = Staged n" by (cases l) auto
      then show ?thesis using w' ns TempFS_close_effect [of v1] by simp
    next
      case False
      then show ?thesis using w' ent1 TempFS_close_effect [of v1] by simp
    qed
    then have eq: "entries w' = entries w" by (rule ext)
    have a: "\<exists>new. wlog w' = wlog w @ new \<and> (\<forall>x \<in> set new. fst x = ?b)"
      using w' lg at TempFS_close_effect [of v1] by auto
    have b: "\<not> tmpdir w' \<and> (\<forall>n. entries w' (Staged n) = None)"
      using w' TempFS_close_effect [of v1] by simp
    have c: "formatVersion = 3 \<and> resolve_structure structure font = Inr st \<and>
         save_try env font ?b st validate True (TempFS_create w) = (Some e, font1, w1)
        \<longrightarrow> res = Some e \<and> entries w' = entries w"
      using s0 t Some res eq by auto
    show ?thesis using a b c eq res by simp
  next
    case None
    obtain r2 v2 where rp: "replace_existing env ?b ?np v1 = (r2, v2)"
      by (cases "replace_existing env ?b ?np v1") auto
    note rf = replace_existing_frame [OF rp]
    have w': "w' = TempFS_close v2"
      using run fv unf t None rp by (cases r2) simp_all
    have path: "res = None \<longrightarrow> p_path font' = StrPath ?np"
      using run fv unf t None rp by (cases r2) auto
    have a: "\<exists>new. wlog w' = wlog w @ new \<and> (\<forall>x \<in> set new. fst x = ?b)"
      using w' lg at rf TempFS_close_effect [of v2] by auto
    have b: "\<not> tmpdir w' \<and> (\<forall>n. entries w' (Staged n) = None)"
      using w' TempFS_close_effect [of v2] by simp
    have d: "entries w' l = entries w l" if "l \<noteq> Path ?np" for l
    proof (cases "is_staged l")
      case True
      then obtain n where "l = Staged n" by (cases l) auto
      then show ?thesis using w' ns TempFS_close_effect [of v2] by simp
    next
      case False
      then have "l \<noteq> ?b" by auto
      then have "entries v2 l = entries v1 l" using rf that by simp
      then show ?thesis using False w' ent1 TempFS_close_effect [of v2] by simp
    qed
    have c: "formatVersion = 3 \<and> resolve_structure structure font = Inr st \<and>
         save_try env font ?b st validate True (TempFS_create w) = (Some e, font1, w1)
        \<longrightarrow> res = Some e \<and> entries w' = entries w"
      using s0 t None by auto
    have f: "formatVersion = 3 \<and>
         (\<exists>st2 font2 w2. resolve_structure structure font = Inr st2 \<and>
            save_try env font ?b st2 validate True (TempFS_create w) = (None, font2, w2))"
      using fv s0 t None by blast
    show ?thesis using a b c d f path by simp
  qed
qed

lemmas demo_defs = demo_env_def demo_font_def demo_font_bad_def demo_disk_def
  save_def save_try_def Font_write_def writer_do_def LayerSet_write_def DataStore_write_def
  DataSet_def ImageSet_def getitem_def TempFS_create_def TempFS_close_def
  resolve_structure_def replace_existing_def

theorem save_unsupported_formatVersion_witness:
  "(2 :: int) \<noteq> 3
   \<and> save demo_env demo_font (StrPath ''font.ufo'') 2 None True True demo_disk =
       (Some NotImplementedError, demo_font, demo_disk)
   \<and> wlog demo_disk = []"
  using save_unsupported_formatVersion
    [of 2 demo_env demo_font "StrPath ''font.ufo''" None True True demo_disk]
  by (simp add: demo_disk_def)

theorem write_rejects_reserved_layer_name_witness:
  "defaultLayer_name (layers demo_font_reserved) \<noteq> DEFAULT_LAYER_NAME
   \<and> DEFAULT_LAYER_NAME \<in> set (layerOrder (layers demo_font_reserved))
   \<and> Font_write demo_env demo_font_reserved (Path ''new.ufo'') True demo_disk =
       (Some AssertionError, demo_font_reserved, demo_disk)"
proof -
  have a: "defaultLayer_name (layers demo_font_reserved) \<noteq> DEFAULT_LAYER_NAME"
    by (simp add: demo_font_reserved_def DEFAULT_LAYER_NAME_def)
  have b: "DEFAULT_LAYER_NAME \<in> set (layerOrder (layers demo_font_reserved))"
    by (simp add: demo_font_reserved_def)
  show ?thesis
    using a b write_rejects_reserved_layer_name [OF a b, of demo_env "Path ''new.ufo''" True demo_disk]
    by (intro conjI) assumption+
qed

lemma demo_exists: "entries demo_disk (Path (normpath demo_env ''font.ufo'')) \<noteq> None"
  by (simp add: demo_disk_def demo_env_def)

lemma demo_basename: "basename demo_env (normpath demo_env ''font.ufo'') = ''font.ufo''"
  by (simp add: demo_env_def)

lemma demo_no_staging: "\<not> tmpdir demo_disk \<and> (\<forall>n. entries demo_disk (Staged n) = None)"
  by (simp add: demo_disk_def)

lemma demo_try_bad:
  "fst (save_try demo_env demo_font_bad (Staged ''font.ufo'') None True True
          (TempFS_create demo_disk)) = Some (OtherError ''disk full'')"
  by (simp add: demo_defs)

lemma demo_try_bad_staged:
  "entries (snd (snd (save_try demo_env demo_font_bad (Staged ''font.ufo'') None True True
          (TempFS_create demo_disk)))) (Staged ''font.ufo'') =
     Some (Dir [WriteFeatures ''fea'', WriteGroups ''groups'', WriteInfo ''info'',
        WriteKerning ''kerning'', WriteLib ''lib'', WriteData ''a'' ''1'', Close])"
  by (simp add: demo_defs)

lemma demo_save_bad_log:
  "wlog (snd (snd (save demo_env demo_font_bad (StrPath ''font.ufo'') 3 None True True demo_disk))) =
     [(Staged ''font.ufo'', Open None True),
      (Staged ''font.ufo'', WriteFeatures ''fea''),
      (Staged ''font.ufo'', WriteGroups ''groups''),
      (Staged ''font.ufo'', WriteInfo ''info''),
      (Staged ''font.ufo'', WriteKerning ''kerning''),
      (Staged ''font.ufo'', WriteLib ''lib''),
      (Staged ''font.ufo'', WriteLayers),
      (Staged ''font.ufo'', WriteData ''a'' ''1''),
      (Staged ''font.ufo'', WriteData ''bad'' ''2''),
      (Staged ''font.ufo'', Close)]"
  by (simp add: demo_defs)

lemma demo_save_good:
  "fst (save demo_env demo_font (StrPath ''font.ufo'') 3 None True True demo_disk) = None
   \<and> entries (snd (snd (save demo_env demo_font (StrPath ''font.ufo'') 3 None True True demo_disk)))
       (Path ''font.ufo'') =
     Some (Dir [WriteFeatures ''fea'', WriteGroups ''groups'', WriteInfo ''info'',
        WriteKerning ''kerning'', WriteLib ''lib'', WriteData ''a'' ''1'', Close,
        SetModificationTime])"
  by (simp add: demo_defs)

theorem save_overwrite_is_staged_witness:
  "entries demo_disk (Path (normpath demo_env ''font.ufo'')) \<noteq> None
   \<and> \<not> tmpdir demo_disk
   \<and> fst (save_try demo_env demo_font_bad (Staged ''font.ufo'') None True True
            (TempFS_create demo_disk)) = Some (OtherError ''disk full'')
   \<and> entries (snd (snd (save_try demo_env demo_font_bad (Staged ''font.ufo'') None True True
            (TempFS_create demo_disk)))) (Staged ''font.ufo'') =
       Some (Dir [WriteFeatures ''fea'', WriteGroups ''groups'', WriteInfo ''info'',
          WriteKerning ''kerning'', WriteLib ''lib'', WriteData ''a'' ''1'', Close])
   \<and> fst (save demo_env demo_font_bad (StrPath ''font.ufo'') 3 None True True demo_disk) =
       Some (OtherError ''disk full'')
   \<and> entries (snd (snd (save demo_env demo_font_bad (StrPath ''font.ufo'') 3 None True True
            demo_disk))) = entries demo_disk
   \<and> \<not> tmpdir (snd (snd (save demo_env demo_font_bad (StrPath ''font.ufo'') 3 None True True
            demo_disk)))
   \<and> (\<forall>n. entries (snd (snd (save demo_env demo_font_bad (StrPath ''font.ufo'') 3 None True True
            demo_disk))) (Staged n) = None)
   \<and> wlog (snd (snd (save demo_env demo_font_bad (StrPath ''font.ufo'') 3 None True True
            demo_disk))) =
       [(Staged ''font.ufo'', Open None True),
        (Staged ''font.ufo'', WriteFeatures ''fea''),
        (Staged ''font.ufo'', WriteGroups ''groups''),
        (Staged ''font.ufo'', WriteInfo ''info''),
        (Staged ''font.ufo'', WriteKerning ''kerning''),
        (Staged ''font.ufo'', WriteLib ''lib''),
        (Staged ''font.ufo'', WriteLayers),
        (Staged ''font.ufo'', WriteData ''a'' ''1''),
        (Staged ''font.ufo'', WriteData ''bad'' ''2''),
        (Staged ''font.ufo'', Close)]"
proof -
  let ?S = "save demo_env demo_font_bad (StrPath ''font.ufo'') 3 None True True demo_disk"
  let ?T = "save_try demo_env demo_font_bad (Staged ''font.ufo'') None True True
              (TempFS_create demo_disk)"
  have run: "?S = (fst ?S, fst (snd ?S), snd (snd ?S))" by simp
  have nt: "\<not> tmpdir demo_disk" and ns: "\<forall>n. entries demo_disk (Staged n) = None"
    using demo_no_staging by simp_all
  have rs: "resolve_structure None demo_font_bad = Inr None"
    by (simp add: resolve_structure_def demo_font_bad_def demo_font_def)
  have t: "save_try demo_env demo_font_bad (Staged (basename demo_env (normpath demo_env ''font.ufo'')))
             None True True (TempFS_create demo_disk) =
           (Some (OtherError ''disk full''), fst (snd ?T), snd (snd ?T))"
    using demo_try_bad unfolding demo_basename by (cases ?T) simp
  note th = save_overwrite_is_staged [OF demo_exists nt ns run,
      of None "OtherError ''disk full''" "fst (snd ?T)" "snd (snd ?T)"]
  have c2: "\<not> tmpdir (snd (snd ?S))" using th by (elim conjE)
  have c3: "\<forall>n. entries (snd (snd ?S)) (Staged n) = None" using th by (elim conjE)
  have c5: "(3 :: int) = 3 \<and> resolve_structure None demo_font_bad = Inr None \<and>
         save_try demo_env demo_font_bad (Staged (basename demo_env (normpath demo_env ''font.ufo'')))
             None True True (TempFS_create demo_disk) =
           (Some (OtherError ''disk full''), fst (snd ?T), snd (snd ?T))
        \<longrightarrow> fst ?S = Some (OtherError ''disk full'') \<and> entries (snd (snd ?S)) = entries demo_disk"
    using th by (elim conjE)
  have c5': "fst ?S = Some (OtherError ''disk full'') \<and> entries (snd (snd ?S)) = entries demo_disk"
    using c5 rs t by simp
  show ?thesis
    using demo_exists nt demo_try_bad demo_try_bad_staged c5' c2 c3 demo_save_bad_log
    by (intro conjI) (erule conjunct1 conjunct2 | assumption)+
qed

end
